theory Spec2Isabelle
  imports Main "HOL-Library.Word" "HOL-Library.AList"
begin

unbundle bit_operations_syntax

section \<open>Machine types and faults\<close>

text \<open>
  Modelled from the spec: the header \<open>interface/vsrtl.h\<close> that declares \<open>VSRTL_VT_U\<close> is
  not part of the sources at hand. The spec fixes addresses and values as 32-bit unsigned
  integers, so \<open>VSRTL_VT_U\<close> is taken to be \<open>uint32_t\<close>, with a native word of 4 bytes.
\<close>

type_synonym VSRTL_VT_U = "32 word"

text \<open>
  C++ \<open>int\<close> (the \<open>size\<close> parameter of \<open>writeMem\<close>) is a 32-bit two's complement value:
  a word that is read with \<open>sint\<close>. C++ \<open>unsigned\<close> (the \<open>width\<close> parameter of the
  reads) is a word that is read with \<open>unat\<close>.
\<close>

type_synonym c_int = "32 word"
type_synonym c_unsigned = "32 word"

text \<open>
  What can go wrong in the source, as values. \<open>assert\<close> is taken to be enabled (no
  \<open>NDEBUG\<close>): a failing assertion aborts the program. \<open>std::unordered_map::at\<close> throws
  \<open>std::out_of_range\<close> on a missing key. A left shift of the promoted \<open>int\<close> by 32 bits
  or more has no defined behaviour in C++.
\<close>

datatype fault =
    AssertNoOverlap
  | AssertSizePositive
  | AssertRegionExists
  | OutOfRange
  | UndefinedShift

definition bind_fault :: "fault + 'a \<Rightarrow> ('a \<Rightarrow> fault + 'b) \<Rightarrow> fault + 'b" where
  "bind_fault r f = (case r of Inl e \<Rightarrow> Inl e | Inr x \<Rightarrow> f x)"

section \<open>The byte store: \<open>std::unordered_map<VSRTL_VT_U, uint8_t>\<close>\<close>

text \<open>
  The store is an association list with one entry per key. The order of the entries stands
  for the iteration order of the hash map, which C++ leaves unspecified; nothing below
  depends on it except through the lemmas that say so.
\<close>

type_synonym byte_store = "(VSRTL_VT_U \<times> 8 word) list"

text \<open>\<open>m.count(k) > 0\<close>\<close>

definition um_contains :: "byte_store \<Rightarrow> VSRTL_VT_U \<Rightarrow> bool" where
  "um_contains m k = (map_of m k \<noteq> None)"

text \<open>\<open>m.at(k)\<close>: throws when the key is missing.\<close>

definition um_at :: "byte_store \<Rightarrow> VSRTL_VT_U \<Rightarrow> fault + 8 word" where
  "um_at m k = (case map_of m k of None \<Rightarrow> Inl OutOfRange | Some b \<Rightarrow> Inr b)"

text \<open>\<open>m[k] = b\<close>: overwrites the entry, or inserts one.\<close>

definition um_assign :: "byte_store \<Rightarrow> VSRTL_VT_U \<Rightarrow> 8 word \<Rightarrow> byte_store" where
  "um_assign m k b = AList.update k b m"

text \<open>\<open>m[k]\<close> read as a value: a missing key is inserted with the value-initialised byte 0.\<close>

definition um_subscript :: "byte_store \<Rightarrow> VSRTL_VT_U \<Rightarrow> 8 word \<times> byte_store" where
  "um_subscript m k = (case map_of m k of None \<Rightarrow> (0, m @ [(k, 0)]) | Some b \<Rightarrow> (b, m))"

text \<open>
  \<open>b << n\<close> for a \<open>uint8_t\<close> \<open>b\<close>: the byte is promoted to a 32-bit \<open>int\<close> and the result is
  converted back to \<open>VSRTL_VT_U\<close> by \<open>|=\<close>, which keeps the bit pattern (also where a byte
  from \<open>0x80\<close> on is shifted by 24 into the sign bit, which gives the two's complement
  pattern). For \<open>n \<ge> 32\<close> the shift is undefined.
\<close>

definition shl_byte :: "8 word \<Rightarrow> nat \<Rightarrow> fault + VSRTL_VT_U" where
  "shl_byte b n = (if n < 32 then Inr (push_bit n (ucast b)) else Inl UndefinedShift)"

text \<open>
  The shift count \<open>i * CHAR_BIT\<close> of the read loops: \<open>i\<close> is \<open>unsigned\<close>, so the product is
  computed in 32 bits and wraps around (it is 32 at \<open>i = 4\<close> and 0 again at \<open>i = 2^29\<close>).
\<close>

definition shift_count :: "nat \<Rightarrow> nat" where
  "shift_count i = unat ((of_nat i :: c_unsigned) * 8)"

section \<open>\<open>class AddressSpace\<close>\<close>

datatype RegionType = Program | IO

datatype AddressSpace =
  AddressSpace (m_data: byte_store) (m_initializationMemories: "AddressSpace list")

text \<open>A default-constructed address space.\<close>

definition empty_AddressSpace :: AddressSpace where
  "empty_AddressSpace = AddressSpace [] []"

text \<open>
  The loop of \<open>writeMem\<close>. The first argument counts the iterations that remain
  (\<open>size - i\<close>); \<open>address + i\<close> wraps around at \<open>2^32\<close>.
\<close>

fun writeMem_loop :: "nat \<Rightarrow> nat \<Rightarrow> VSRTL_VT_U \<Rightarrow> VSRTL_VT_U \<Rightarrow> byte_store \<Rightarrow> byte_store" where
  "writeMem_loop 0 i address val m = m"
| "writeMem_loop (Suc n) i address val m =
     writeMem_loop n (Suc i) address (drop_bit 8 val)
       (um_assign m (address + of_nat i) (ucast (val AND 0xff)))"

text \<open>\<open>for (int i = 0; i < size; i++)\<close> runs \<open>size\<close> times, and not at all for \<open>size \<le> 0\<close>.\<close>

definition writeMem :: "AddressSpace \<Rightarrow> VSRTL_VT_U \<Rightarrow> VSRTL_VT_U \<Rightarrow> c_int \<Rightarrow> AddressSpace" where
  "writeMem s address val sz =
     AddressSpace (writeMem_loop (nat (sint sz)) 0 address val (m_data s))
       (m_initializationMemories s)"

text \<open>
  The loop of \<open>readMem\<close>: \<open>value |= m_data[address++] << (i * CHAR_BIT)\<close>. The subscript
  inserts a zero byte where the key is missing, so the store is part of the result.
\<close>

fun readMem_loop ::
  "nat \<Rightarrow> nat \<Rightarrow> VSRTL_VT_U \<Rightarrow> VSRTL_VT_U \<Rightarrow> byte_store \<Rightarrow> fault + (VSRTL_VT_U \<times> byte_store)" where
  "readMem_loop 0 i address val m = Inr (val, m)"
| "readMem_loop (Suc n) i address val m =
     (case um_subscript m address of (b, m') \<Rightarrow>
        bind_fault (shl_byte b (shift_count i))
          (\<lambda>x. readMem_loop n (Suc i) (address + 1) (val OR x) m'))"

definition readMem ::
  "AddressSpace \<Rightarrow> VSRTL_VT_U \<Rightarrow> c_unsigned \<Rightarrow> fault + (VSRTL_VT_U \<times> AddressSpace)" where
  "readMem s address width =
     bind_fault (readMem_loop (unat width) 0 address 0 (m_data s))
       (\<lambda>(v, m'). Inr (v, AddressSpace m' (m_initializationMemories s)))"

definition contains :: "AddressSpace \<Rightarrow> VSRTL_VT_U \<Rightarrow> bool" where
  "contains s address = um_contains (m_data s) address"

text \<open>
  The loop of \<open>readMemConst\<close>:
  \<open>value |= contains(address) ? m_data.at(address) << (i * CHAR_BIT) : 0; address++\<close>.
  The method is \<open>const\<close>: it yields a value and no store.
\<close>

fun readMemConst_loop ::
  "nat \<Rightarrow> nat \<Rightarrow> VSRTL_VT_U \<Rightarrow> VSRTL_VT_U \<Rightarrow> byte_store \<Rightarrow> fault + VSRTL_VT_U" where
  "readMemConst_loop 0 i address val m = Inr val"
| "readMemConst_loop (Suc n) i address val m =
     bind_fault
       (if um_contains m address
        then bind_fault (um_at m address) (\<lambda>b. shl_byte b (shift_count i))
        else Inr 0)
       (\<lambda>x. readMemConst_loop n (Suc i) (address + 1) (val OR x) m)"

definition readMemConst :: "AddressSpace \<Rightarrow> VSRTL_VT_U \<Rightarrow> c_unsigned \<Rightarrow> fault + VSRTL_VT_U" where
  "readMemConst s address width = readMemConst_loop (unat width) 0 address 0 (m_data s)"

definition regionType :: "AddressSpace \<Rightarrow> VSRTL_VT_U \<Rightarrow> RegionType" where
  "regionType s address = Program"

text \<open>
  \<open>addInitializationMemory<T>(startAddr, program, n)\<close>: \<open>program\<close> is given as the list of its
  \<open>n\<close> elements, each already converted to \<open>VSRTL_VT_U\<close> as the call of \<open>writeMem\<close> does, and
  \<open>elem_size\<close> is \<open>sizeof(T)\<close>.
\<close>

fun addInit_loop :: "VSRTL_VT_U list \<Rightarrow> c_int \<Rightarrow> VSRTL_VT_U \<Rightarrow> AddressSpace \<Rightarrow> AddressSpace" where
  "addInit_loop [] elem_size addr mem = mem"
| "addInit_loop (p # ps) elem_size addr mem =
     addInit_loop ps elem_size (addr + elem_size) (writeMem mem addr p elem_size)"

definition addInitializationMemory ::
  "AddressSpace \<Rightarrow> VSRTL_VT_U \<Rightarrow> VSRTL_VT_U list \<Rightarrow> c_int \<Rightarrow> AddressSpace" where
  "addInitializationMemory s startAddr program elem_size =
     AddressSpace (m_data s)
       (m_initializationMemories s @ [addInit_loop program elem_size startAddr empty_AddressSpace])"

definition clearInitializationMemories :: "AddressSpace \<Rightarrow> AddressSpace" where
  "clearInitializationMemories s = AddressSpace (m_data s) []"

text \<open>
  \<open>reset\<close>: the store is cleared, then every byte of every initialization memory is written
  with \<open>writeMem(memData.first, memData.second, sizeof(memData.second))\<close>, one byte at a time.
  This is \<open>reset\<close> on an object of the base class, where the virtual \<open>writeMem\<close> is the one
  above.
\<close>

definition reset_segment :: "AddressSpace \<Rightarrow> AddressSpace \<Rightarrow> AddressSpace" where
  "reset_segment s mem =
     foldl (\<lambda>s' memData. writeMem s' (fst memData) (ucast (snd memData)) 1) s (m_data mem)"

definition reset :: "AddressSpace \<Rightarrow> AddressSpace" where
  "reset s =
     foldl reset_segment (AddressSpace [] (m_initializationMemories s))
       (m_initializationMemories s)"

text \<open>
  A history of calls on one address space, and the state it leaves. A \<open>readMem\<close> that has no
  defined result ends the history with its fault. \<open>readMemConst\<close> is a \<open>const\<close> method: it has no
  access to the store other than \<open>count\<close> and \<open>at\<close>, so the state after the call is the state
  before it, whatever value the call yields.
\<close>

datatype AddressSpace_call =
    WriteMem VSRTL_VT_U VSRTL_VT_U c_int
  | ReadMem VSRTL_VT_U c_unsigned
  | ReadMemConst VSRTL_VT_U c_unsigned
  | AddInitializationMemory VSRTL_VT_U "VSRTL_VT_U list" c_int
  | ClearInitializationMemories
  | Reset

fun call :: "AddressSpace_call \<Rightarrow> AddressSpace \<Rightarrow> fault + AddressSpace" where
  "call (WriteMem address val sz) s = Inr (writeMem s address val sz)"
| "call (ReadMem address width) s = bind_fault (readMem s address width) (\<lambda>(v, s'). Inr s')"
| "call (ReadMemConst address width) s = Inr s"
| "call (AddInitializationMemory startAddr program elem_size) s =
     Inr (addInitializationMemory s startAddr program elem_size)"
| "call ClearInitializationMemories s = Inr (clearInitializationMemories s)"
| "call Reset s = Inr (reset s)"

fun calls :: "AddressSpace_call list \<Rightarrow> AddressSpace \<Rightarrow> fault + AddressSpace" where
  "calls [] s = Inr s"
| "calls (c # cs) s = bind_fault (call c s) (calls cs)"

text \<open>
  The addresses a call stores a byte to, now or (for an initialization memory) at the next
  \<open>reset\<close>; and the addresses a mutating read goes through.
\<close>

fun writes_address :: "AddressSpace_call \<Rightarrow> VSRTL_VT_U \<Rightarrow> bool" where
  "writes_address (WriteMem address val sz) a = (unat (a - address) < nat (sint sz))"
| "writes_address (AddInitializationMemory startAddr program elem_size) a =
     contains (addInit_loop program elem_size startAddr empty_AddressSpace) a"
| "writes_address c a = False"

fun reads_address :: "AddressSpace_call \<Rightarrow> VSRTL_VT_U \<Rightarrow> bool" where
  "reads_address (ReadMem address width) a = (unat (a - address) < unat width)"
| "reads_address c a = False"

section \<open>\<open>class AddressSpaceMM\<close>\<close>

text \<open>
  The callbacks are \<open>std::function\<close> objects owned by the peripheral; what they do is outside
  the address space. \<open>'w\<close> is the state of that outside world: \<open>ioWrite\<close> changes it, and
  \<open>ioRead\<close> yields a value and may change it as well.
\<close>

record 'w IOFunctors =
  ioWrite :: "32 word \<Rightarrow> 32 word \<Rightarrow> 32 word \<Rightarrow> 'w \<Rightarrow> 'w"
  ioRead :: "32 word \<Rightarrow> 32 word \<Rightarrow> 'w \<Rightarrow> 32 word \<times> 'w"

text \<open>\<open>struct MMapValue\<close>; the field \<open>size\<close> is \<open>size_mm\<close> here.\<close>

record 'w MMapValue =
  base :: "32 word"
  size_mm :: c_unsigned
  io :: "'w IOFunctors"

text \<open>
  \<open>std::map<uint32_t, MMapValue>\<close>: an association list in ascending key order, one entry
  per key. \<open>lower_bound\<close> is the first entry whose key is not less than the argument.
\<close>

type_synonym 'v ordered_map = "(32 word \<times> 'v) list"

fun map_lower_bound :: "'v ordered_map \<Rightarrow> 32 word \<Rightarrow> (32 word \<times> 'v) option" where
  "map_lower_bound [] k = None"
| "map_lower_bound ((k', v) # m) k = (if k \<le> k' then Some (k', v) else map_lower_bound m k)"

text \<open>\<open>m[k] = v\<close>\<close>

fun map_assign :: "'v ordered_map \<Rightarrow> 32 word \<Rightarrow> 'v \<Rightarrow> 'v ordered_map" where
  "map_assign [] k v = [(k, v)]"
| "map_assign ((k', v') # m) k v =
     (if k < k' then (k, v) # (k', v') # m
      else if k = k' then (k, v) # m
      else (k', v') # map_assign m k v)"

text \<open>\<open>m.find(k)\<close>, with \<open>None\<close> for \<open>m.end()\<close>, and \<open>m.erase(it)\<close> for the entry found.\<close>

definition map_find :: "'v ordered_map \<Rightarrow> 32 word \<Rightarrow> 'v option" where
  "map_find m k = map_of m k"

definition map_erase :: "'v ordered_map \<Rightarrow> 32 word \<Rightarrow> 'v ordered_map" where
  "map_erase m k = AList.delete k m"

record 'w AddressSpaceMM =
  sparse :: AddressSpace
  m_mmapRegions :: "'w MMapValue ordered_map"

definition empty_AddressSpaceMM :: "'w AddressSpaceMM" where
  "empty_AddressSpaceMM = \<lparr>sparse = empty_AddressSpace, m_mmapRegions = []\<rparr>"

definition findMMapRegion :: "'w AddressSpaceMM \<Rightarrow> VSRTL_VT_U \<Rightarrow> 'w MMapValue option" where
  "findMMapRegion s address =
     (if m_mmapRegions s = [] then None
      else case map_lower_bound (m_mmapRegions s) address of
             None \<Rightarrow> None
           | Some (k, r) \<Rightarrow> if address < base r then None else Some r)"

text \<open>
  The overriding accessors. \<open>size\<close> is converted from \<open>int\<close> to the \<open>uint32_t\<close> parameter of
  \<open>ioWrite\<close>, which keeps the bit pattern.
\<close>

definition writeMemMM ::
  "'w AddressSpaceMM \<Rightarrow> VSRTL_VT_U \<Rightarrow> VSRTL_VT_U \<Rightarrow> c_int \<Rightarrow> 'w \<Rightarrow> 'w AddressSpaceMM \<times> 'w" where
  "writeMemMM s address val sz world =
     (case findMMapRegion s address of
        Some mmapregion \<Rightarrow>
          (s, ioWrite (io mmapregion) (address - base mmapregion) val sz world)
      | None \<Rightarrow> (s\<lparr>sparse := writeMem (sparse s) address val sz\<rparr>, world))"

definition readMemMM ::
  "'w AddressSpaceMM \<Rightarrow> VSRTL_VT_U \<Rightarrow> c_unsigned \<Rightarrow> 'w
     \<Rightarrow> fault + (VSRTL_VT_U \<times> 'w AddressSpaceMM \<times> 'w)" where
  "readMemMM s address width world =
     (case findMMapRegion s address of
        Some mmapregion \<Rightarrow>
          (case ioRead (io mmapregion) (address - base mmapregion) width world of
             (v, world') \<Rightarrow> Inr (v, s, world'))
      | None \<Rightarrow>
          bind_fault (readMem (sparse s) address width)
            (\<lambda>(v, a'). Inr (v, s\<lparr>sparse := a'\<rparr>, world)))"

definition readMemConstMM ::
  "'w AddressSpaceMM \<Rightarrow> VSRTL_VT_U \<Rightarrow> c_unsigned \<Rightarrow> 'w \<Rightarrow> fault + (VSRTL_VT_U \<times> 'w)" where
  "readMemConstMM s address width world =
     (case findMMapRegion s address of
        Some mmapregion \<Rightarrow> Inr (ioRead (io mmapregion) (address - base mmapregion) width world)
      | None \<Rightarrow>
          bind_fault (readMemConst (sparse s) address width) (\<lambda>v. Inr (v, world)))"

definition regionTypeMM :: "'w AddressSpaceMM \<Rightarrow> VSRTL_VT_U \<Rightarrow> RegionType" where
  "regionTypeMM s address =
     (case findMMapRegion s address of Some mmapregion \<Rightarrow> IO | None \<Rightarrow> Program)"

text \<open>The two assertions of \<open>addIORegion\<close>, in the order of the source.\<close>

definition addIORegion ::
  "'w AddressSpaceMM \<Rightarrow> VSRTL_VT_U \<Rightarrow> c_unsigned \<Rightarrow> 'w IOFunctors \<Rightarrow> fault + 'w AddressSpaceMM" where
  "addIORegion s baseAddr sz iof =
     (if \<not> (findMMapRegion s baseAddr = None \<and> findMMapRegion s (baseAddr + sz - 1) = None)
      then Inl AssertNoOverlap
      else if \<not> 0 < sz then Inl AssertSizePositive
      else Inr (s\<lparr>m_mmapRegions :=
                  map_assign (m_mmapRegions s) (baseAddr + sz - 1)
                    \<lparr>base = baseAddr, size_mm = sz, io = iof\<rparr>\<rparr>))"

definition removeIORegion ::
  "'w AddressSpaceMM \<Rightarrow> VSRTL_VT_U \<Rightarrow> c_unsigned \<Rightarrow> fault + 'w AddressSpaceMM" where
  "removeIORegion s baseAddr sz =
     (case map_find (m_mmapRegions s) (baseAddr + sz - 1) of
        None \<Rightarrow> Inl AssertRegionExists
      | Some r \<Rightarrow>
          Inr (s\<lparr>m_mmapRegions := map_erase (m_mmapRegions s) (baseAddr + sz - 1)\<rparr>))"

text \<open>A sequence of \<open>addIORegion\<close> calls; the first failing assertion ends it.\<close>

fun addIORegions ::
  "(VSRTL_VT_U \<times> c_unsigned \<times> 'w IOFunctors) list \<Rightarrow> 'w AddressSpaceMM
     \<Rightarrow> fault + 'w AddressSpaceMM" where
  "addIORegions [] s = Inr s"
| "addIORegions ((baseAddr, sz, iof) # rs) s =
     bind_fault (addIORegion s baseAddr sz iof) (addIORegions rs)"

section \<open>Vocabulary of the properties\<close>

text \<open>
  A region covers the addresses from \<open>base\<close> to \<open>base + size - 1\<close>, read as numbers (with no
  wrap-around); two regions overlap when these intervals meet.
\<close>

definition last_address :: "'w MMapValue \<Rightarrow> int" where
  "last_address r = uint (base r) + uint (size_mm r) - 1"

definition covers :: "'w MMapValue \<Rightarrow> VSRTL_VT_U \<Rightarrow> bool" where
  "covers r a = (uint (base r) \<le> uint a \<and> uint a \<le> last_address r)"

definition regions_overlap :: "'w MMapValue \<Rightarrow> 'w MMapValue \<Rightarrow> bool" where
  "regions_overlap r1 r2 =
     (uint (base r1) \<le> last_address r2 \<and> uint (base r2) \<le> last_address r1)"

definition pairwise_disjoint :: "'w MMapValue ordered_map \<Rightarrow> bool" where
  "pairwise_disjoint m =
     (\<forall>(k1, r1) \<in> set m. \<forall>(k2, r2) \<in> set m. k1 \<noteq> k2 \<longrightarrow> \<not> regions_overlap r1 r2)"

text \<open>
  What every region index built by \<open>addIORegion\<close> and \<open>removeIORegion\<close> satisfies: the keys
  ascend strictly, and each region is non-empty and keyed by \<open>base + size - 1\<close> as the
  machine computes it.
\<close>

definition region_index :: "'w MMapValue ordered_map \<Rightarrow> bool" where
  "region_index m =
     (sorted_wrt (<) (map fst m) \<and>
      (\<forall>(k, r) \<in> set m. k = base r + size_mm r - 1 \<and> 0 < size_mm r))"

text \<open>No region runs past the last address \<open>2^32 - 1\<close>.\<close>

definition no_wrap :: "'w MMapValue ordered_map \<Rightarrow> bool" where
  "no_wrap m = (\<forall>(k, r) \<in> set m. last_address r < 2 ^ 32)"

text \<open>A peripheral that records the calls it receives, and answers every read with its offset.\<close>

datatype io_event = IoWrite "32 word" "32 word" "32 word" | IoRead "32 word" "32 word"

definition recorder :: "io_event list IOFunctors" where
  "recorder =
     \<lparr>ioWrite = (\<lambda>offset val width log. log @ [IoWrite offset val width]),
      ioRead = (\<lambda>offset width log. (offset, log @ [IoRead offset width]))\<rparr>"

text \<open>
  The byte a store shows at an address, a missing key counting as 0, and the value of \<open>n\<close>
  such bytes from an address on, least significant first.
\<close>

definition byte_at :: "byte_store \<Rightarrow> VSRTL_VT_U \<Rightarrow> 8 word" where
  "byte_at m a = (case map_of m a of None \<Rightarrow> 0 | Some b \<Rightarrow> b)"

fun le_bytes :: "byte_store \<Rightarrow> VSRTL_VT_U \<Rightarrow> nat \<Rightarrow> VSRTL_VT_U" where
  "le_bytes m a 0 = 0"
| "le_bytes m a (Suc n) = ucast (byte_at m a) OR push_bit 8 (le_bytes m (a + 1) n)"

text \<open>Region indexes used as examples.\<close>

definition region :: "32 word \<Rightarrow> 32 word \<Rightarrow> io_event list MMapValue" where
  "region b sz = \<lparr>base = b, size_mm = sz, io = recorder\<rparr>"

definition with_regions :: "io_event list MMapValue ordered_map \<Rightarrow> io_event list AddressSpaceMM" where
  "with_regions m = \<lparr>sparse = empty_AddressSpace, m_mmapRegions = m\<rparr>"

text \<open>
  An \<open>unordered_map\<close> has one entry per key. The union of the initialization memories with
  the later one winning: the byte at an address is the byte of the last memory that contains
  the address, and there is none when no memory contains it.
\<close>

definition unique_keys :: "byte_store \<Rightarrow> bool" where
  "unique_keys m = distinct (map fst m)"

definition last_write_wins :: "AddressSpace list \<Rightarrow> VSRTL_VT_U \<Rightarrow> 8 word option" where
  "last_write_wins mems a =
     (case find (\<lambda>mem. contains mem a) (rev mems) of
        None \<Rightarrow> None
      | Some mem \<Rightarrow> map_of (m_data mem) a)"

text \<open>
  An address space with two initialization memories: four 32-bit words 1, 2, 3, 4 from address
  0, and then one 32-bit word from address 4, over the second word of the first.
\<close>

definition two_segments :: AddressSpace where
  "two_segments =
     addInitializationMemory
       (addInitializationMemory empty_AddressSpace 0 [1, 2, 3, 4] 4) 4 [0xAABBCCDD] 4"

text \<open>
  An address that nothing has been stored to: the store shows 0 there and no initialization
  memory holds it. An address that nothing has touched: neither the store nor any
  initialization memory holds it.
\<close>

definition unwritten :: "AddressSpace \<Rightarrow> VSRTL_VT_U \<Rightarrow> bool" where
  "unwritten s a =
     (byte_at (m_data s) a = 0 \<and> (\<forall>mem \<in> set (m_initializationMemories s). \<not> contains mem a))"

definition untouched :: "AddressSpace \<Rightarrow> VSRTL_VT_U \<Rightarrow> bool" where
  "untouched s a =
     (\<not> contains s a \<and> (\<forall>mem \<in> set (m_initializationMemories s). \<not> contains mem a))"

text \<open>Every store of an address space has one entry per key.\<close>

definition entries_unique :: "AddressSpace \<Rightarrow> bool" where
  "entries_unique s =
     (unique_keys (m_data s) \<and> (\<forall>mem \<in> set (m_initializationMemories s). unique_keys (m_data mem)))"

text \<open>
  The value that a read of \<open>n\<close> bytes from an address on puts together when the first of them
  is byte number \<open>i\<close> of the read: every byte shifted by its count, a missing byte counting
  as 0. The shifts of such a read are defined when every byte that is present has a count
  below 32.
\<close>

fun assembled :: "byte_store \<Rightarrow> VSRTL_VT_U \<Rightarrow> nat \<Rightarrow> nat \<Rightarrow> VSRTL_VT_U" where
  "assembled m a i 0 = 0"
| "assembled m a i (Suc n) =
     push_bit (shift_count i) (ucast (byte_at m a)) OR assembled m (a + 1) (Suc i) n"


section \<open>The byte store and the loops\<close>

lemma shift_count_small: "i < 4 \<Longrightarrow> shift_count i = 8 * i"
proof -
  assume "i < 4"
  have "shift_count i = (i * 8) mod 2 ^ 32"
    by (simp add: shift_count_def unat_word_ariths unat_of_nat mod_mult_left_eq)
  with \<open>i < 4\<close> show ?thesis by simp
qed

lemma map_of_um_assign: "map_of (um_assign m k b) = (map_of m)(k \<mapsto> b)"
  by (simp add: um_assign_def update_conv')

lemma writeMem_loop_other:
  "(\<And>j. j < n \<Longrightarrow> k \<noteq> address + of_nat (i + j)) \<Longrightarrow>
   map_of (writeMem_loop n i address val m) k = map_of m k"
proof (induction n arbitrary: i val m)
  case 0
  then show ?case by simp
next
  case (Suc n)
  have k0: "k \<noteq> address + of_nat i" using Suc.prems [of 0] by simp
  have "map_of (writeMem_loop n (Suc i) address (drop_bit 8 val)
          (um_assign m (address + of_nat i) (ucast (val AND 0xff)))) k
        = map_of (um_assign m (address + of_nat i) (ucast (val AND 0xff))) k"
  proof (rule Suc.IH)
    fix j assume "j < n"
    then show "k \<noteq> address + of_nat (Suc i + j)" using Suc.prems [of "Suc j"] by simp
  qed
  with k0 show ?case by (simp add: map_of_um_assign)
qed

lemma of_nat_neq_0_u32: "0 < j \<Longrightarrow> j < 2 ^ 32 \<Longrightarrow> (of_nat j :: 32 word) \<noteq> 0"
proof
  assume "0 < j" "j < 2 ^ 32" "(of_nat j :: 32 word) = 0"
  then have "unat (of_nat j :: 32 word) = 0" by simp
  then have "j mod 2 ^ 32 = 0" by (simp add: unat_of_nat)
  with \<open>0 < j\<close> \<open>j < 2 ^ 32\<close> show False by simp
qed

lemma ucast_low_byte: "(ucast (val AND 0xff :: 32 word) :: 8 word) = ucast val"
proof -
  have "(ucast (val AND mask 8 :: 32 word) :: 8 word) = ucast val"
    by (rule bit_eqI) (auto simp add: bit_simps)
  then show ?thesis by (simp add: mask_eq_exp_minus_1)
qed

lemma writeMem_loop_written:
  "j < n \<Longrightarrow> n \<le> 2 ^ 32 \<Longrightarrow>
   map_of (writeMem_loop n i address val m) (address + of_nat (i + j))
     = Some (ucast (drop_bit (8 * j) val))"
proof (induction n arbitrary: i val m j)
  case 0
  then show ?case by simp
next
  case (Suc n)
  show ?case
  proof (cases j)
    case 0
    have "map_of (writeMem_loop n (Suc i) address (drop_bit 8 val)
            (um_assign m (address + of_nat i) (ucast (val AND 0xff)))) (address + of_nat i)
          = map_of (um_assign m (address + of_nat i) (ucast (val AND 0xff))) (address + of_nat i)"
    proof (rule writeMem_loop_other)
      fix j' assume "j' < n"
      with Suc.prems have "0 < Suc j'" "Suc j' < 2 ^ 32" by simp_all
      then have "(of_nat (Suc j') :: 32 word) \<noteq> 0" by (rule of_nat_neq_0_u32)
      moreover have "(of_nat (Suc i + j') :: 32 word) = of_nat i + of_nat (Suc j')"
        by simp
      ultimately show "address + of_nat i \<noteq> address + of_nat (Suc i + j')"
        by (simp del: of_nat_Suc of_nat_add)
    qed
    with 0 show ?thesis by (simp add: map_of_um_assign ucast_low_byte)
  next
    case (Suc j')
    with Suc.prems have "j' < n" "n \<le> 2 ^ 32" by simp_all
    from Suc.IH [OF this, of "Suc i" "drop_bit 8 val"] Suc show ?thesis
      by (simp add: add.commute)
  qed
qed

lemma um_subscript_present: "map_of m k = Some b \<Longrightarrow> um_subscript m k = (b, m)"
  by (simp add: um_subscript_def)

lemma le_byte_step:
  "push_bit (8 * i) (ucast (ucast (drop_bit (8 * i) v :: 32 word) :: 8 word)) OR
     push_bit (8 * Suc i) (take_bit (8 * n) (drop_bit (8 * Suc i) v))
   = (push_bit (8 * i) (take_bit (8 * Suc n) (drop_bit (8 * i) v)) :: 32 word)"
proof (rule bit_eqI)
  fix k
  assume "possible_bit TYPE(32 word) k"
  have far: "8 + 8 * i + (k - (8 + 8 * i)) = k" if "\<not> k - 8 * i < 8"
    using that by simp
  show "bit (push_bit (8 * i) (ucast (ucast (drop_bit (8 * i) v :: 32 word) :: 8 word)) OR
          push_bit (8 * Suc i) (take_bit (8 * n) (drop_bit (8 * Suc i) v))) k
        = bit (push_bit (8 * i) (take_bit (8 * Suc n) (drop_bit (8 * i) v)) :: 32 word) k"
  proof (cases "k - 8 * i < 8")
    case True
    then show ?thesis by (auto simp add: bit_simps)
  next
    case False
    with far show ?thesis by (auto simp add: bit_simps)
  qed
qed

lemma readMem_loop_present:
  "(\<And>j. j < n \<Longrightarrow> map_of m (address + of_nat j) = Some (ucast (drop_bit (8 * (i + j)) v))) \<Longrightarrow>
   i + n \<le> 4 \<Longrightarrow>
   readMem_loop n i address acc m
     = Inr (acc OR push_bit (8 * i) (take_bit (8 * n) (drop_bit (8 * i) v)), m)"
proof (induction n arbitrary: i address acc)
  case 0
  then show ?case by simp
next
  case (Suc n)
  have here: "um_subscript m address = (ucast (drop_bit (8 * i) v), m)"
    using Suc.prems(1) [of 0] by (simp add: um_subscript_present)
  have shift: "shl_byte (ucast (drop_bit (8 * i) v)) (shift_count i)
                 = Inr (push_bit (8 * i) (ucast (ucast (drop_bit (8 * i) v) :: 8 word)))"
    using Suc.prems(2) by (simp add: shl_byte_def shift_count_small)
  have rest: "readMem_loop n (Suc i) (address + 1) acc' m
        = Inr (acc' OR push_bit (8 * Suc i) (take_bit (8 * n) (drop_bit (8 * Suc i) v)), m)"
    for acc'
  proof (rule Suc.IH)
    fix j assume "j < n"
    then show "map_of m (address + 1 + of_nat j) = Some (ucast (drop_bit (8 * (Suc i + j)) v))"
      using Suc.prems(1) [of "Suc j"] by (simp add: ac_simps)
  next
    show "Suc i + n \<le> 4" using Suc.prems(2) by simp
  qed
  show ?case
    by (simp only: readMem_loop.simps here shift rest bind_fault_def prod.case sum.case
          or.assoc le_byte_step)
qed

lemma um_contains_present: "map_of m k = Some b \<Longrightarrow> um_contains m k"
  by (simp add: um_contains_def)

lemma um_at_present: "map_of m k = Some b \<Longrightarrow> um_at m k = Inr b"
  by (simp add: um_at_def)

lemma readMemConst_loop_present:
  "(\<And>j. j < n \<Longrightarrow> map_of m (address + of_nat j) = Some (ucast (drop_bit (8 * (i + j)) v))) \<Longrightarrow>
   i + n \<le> 4 \<Longrightarrow>
   readMemConst_loop n i address acc m
     = Inr (acc OR push_bit (8 * i) (take_bit (8 * n) (drop_bit (8 * i) v)))"
proof (induction n arbitrary: i address acc)
  case 0
  then show ?case by simp
next
  case (Suc n)
  have here: "map_of m address = Some (ucast (drop_bit (8 * i) v))"
    using Suc.prems(1) [of 0] by simp
  have shift: "shl_byte (ucast (drop_bit (8 * i) v)) (shift_count i)
                 = Inr (push_bit (8 * i) (ucast (ucast (drop_bit (8 * i) v) :: 8 word)))"
    using Suc.prems(2) by (simp add: shl_byte_def shift_count_small)
  have rest: "readMemConst_loop n (Suc i) (address + 1) acc' m
        = Inr (acc' OR push_bit (8 * Suc i) (take_bit (8 * n) (drop_bit (8 * Suc i) v)))"
    for acc'
  proof (rule Suc.IH)
    fix j assume "j < n"
    then show "map_of m (address + 1 + of_nat j) = Some (ucast (drop_bit (8 * (Suc i + j)) v))"
      using Suc.prems(1) [of "Suc j"] by (simp add: ac_simps)
  next
    show "Suc i + n \<le> 4" using Suc.prems(2) by simp
  qed
  show ?case
    by (simp only: readMemConst_loop.simps um_contains_present [OF here] um_at_present [OF here]
          if_True shift rest bind_fault_def sum.case or.assoc le_byte_step)
qed

lemma low_bits_mask: "v AND (push_bit n 1 - 1) = take_bit n (v :: 32 word)"
  by (simp add: take_bit_eq_mask mask_eq_exp_minus_1 push_bit_of_1)

lemma small_width: "w \<le> (4 :: 32 word) \<Longrightarrow> unat w \<le> 4 \<and> nat (sint w) = unat w"
proof -
  assume "w \<le> 4"
  then have u: "unat w \<le> 4" by (simp add: word_le_nat_alt)
  from \<open>w \<le> 4\<close> have "uint w \<le> 4" by (simp add: word_le_def)
  then have "uint w < 2 ^ 31" by simp
  moreover have "(- (2 ^ 31) :: int) \<le> 0" by simp
  then have "- (2 ^ 31) \<le> uint w" by (rule order_trans) simp
  ultimately have "uint w < 2 ^ 31" "- (2 ^ 31) \<le> uint w" by this+
  then have "sint w = uint w"
    by (simp add: sint_uint signed_take_bit_int_eq_self)
  with u show ?thesis by simp
qed

section \<open>Write and read back\<close>

text \<open>
  C5. On the plain byte store, for every address \<open>a\<close>, value \<open>v\<close> and width \<open>w\<close> of at most the 4
  bytes of the native word, \<open>writeMem(a, v, w)\<close> followed by a read of \<open>w\<close> bytes at \<open>a\<close>, with
  \<open>readMem\<close> or with \<open>readMemConst\<close>, yields \<open>v & ((1 << 8w) - 1)\<close>, at any alignment and also
  across the wrap-around of the address. The bytes are stored and put together again least
  significant first: after the write the store holds byte \<open>j\<close> of \<open>v\<close> at address \<open>a + j\<close>. The
  read of \<open>readMem\<close> finds every byte and leaves the store as it is.
\<close>

theorem write_read_roundtrip:
  assumes "w \<le> 4"
  shows "readMem (writeMem s a v w) a w
           = Inr (v AND (push_bit (8 * unat w) 1 - 1), writeMem s a v w) \<and>
         readMemConst (writeMem s a v w) a w = Inr (v AND (push_bit (8 * unat w) 1 - 1)) \<and>
         (\<forall>j<unat w. map_of (m_data (writeMem s a v w)) (a + of_nat j)
                        = Some (ucast (drop_bit (8 * j) v)))"
proof -
  from assms have w: "unat w \<le> 4" "nat (sint w) = unat w" by (simp_all add: small_width)
  define m where "m = writeMem_loop (unat w) 0 a v (m_data s)"
  have stored: "map_of m (a + of_nat j) = Some (ucast (drop_bit (8 * (0 + j)) v))"
    if "j < unat w" for j
    using writeMem_loop_written [of j "unat w" 0 a v "m_data s"] that w(1)
    by (simp add: m_def)
  have r: "readMem_loop (unat w) 0 a 0 m = Inr (take_bit (8 * unat w) v, m)"
    using readMem_loop_present [of "unat w" m a 0 v 0] stored w(1) by simp
  have c: "readMemConst_loop (unat w) 0 a 0 m = Inr (take_bit (8 * unat w) v)"
    using readMemConst_loop_present [of "unat w" m a 0 v 0] stored w(1) by simp
  have bytes: "\<forall>j<unat w. map_of (m_data (writeMem s a v w)) (a + of_nat j)
                              = Some (ucast (drop_bit (8 * j) v))"
    using stored by (simp add: writeMem_def w(2) m_def)
  have "readMem (writeMem s a v w) a w = Inr (take_bit (8 * unat w) v, writeMem s a v w) \<and>
        readMemConst (writeMem s a v w) a w = Inr (take_bit (8 * unat w) v)"
    by (simp add: readMem_def readMemConst_def writeMem_def w(2) m_def [symmetric] r c
          bind_fault_def)
  with bytes show ?thesis by (simp only: low_bits_mask simp_thms)
qed


theorem write_read_roundtrip_witness:
  "(2 :: 32 word) \<le> 4 \<and>
   readMem (writeMem empty_AddressSpace 0xFFFFFFFF 0x12345678 2) 0xFFFFFFFF 2
     = Inr (0x5678, AddressSpace [(0xFFFFFFFF, 0x78), (0, 0x56)] []) \<and>
   readMemConst (writeMem empty_AddressSpace 0xFFFFFFFF 0x12345678 2) 0xFFFFFFFF 2 = Inr 0x5678"
proof -
  have h: "(2 :: 32 word) \<le> 4" by simp
  have st: "writeMem empty_AddressSpace 0xFFFFFFFF 0x12345678 2
              = AddressSpace [(0xFFFFFFFF, 0x78), (0, 0x56)] []"
    by code_simp
  have v: "(0x12345678 :: 32 word) AND (push_bit (8 * unat (2 :: 32 word)) 1 - 1) = 0x5678"
    by code_simp
  from write_read_roundtrip [OF h, of empty_AddressSpace "0xFFFFFFFF" "0x12345678"]
  have "readMem (writeMem empty_AddressSpace 0xFFFFFFFF 0x12345678 2) 0xFFFFFFFF 2
     = Inr (0x12345678 AND (push_bit (8 * unat (2 :: 32 word)) 1 - 1),
         writeMem empty_AddressSpace 0xFFFFFFFF 0x12345678 2)"
    and "readMemConst (writeMem empty_AddressSpace 0xFFFFFFFF 0x12345678 2) 0xFFFFFFFF 2
     = Inr (0x12345678 AND (push_bit (8 * unat (2 :: 32 word)) 1 - 1))"
    by blast+
  then have "readMem (AddressSpace [(0xFFFFFFFF, 0x78), (0, 0x56)] []) 0xFFFFFFFF 2
     = Inr (0x5678, AddressSpace [(0xFFFFFFFF, 0x78), (0, 0x56)] []) \<and>
   readMemConst (AddressSpace [(0xFFFFFFFF, 0x78), (0, 0x56)] []) 0xFFFFFFFF 2 = Inr 0x5678"
    by (simp only: st v simp_thms)
  with h show ?thesis by (simp only: st simp_thms)
qed

section \<open>Reading without mutation\<close>

lemma const_step:
  "um_contains m a \<Longrightarrow> i < 4 \<Longrightarrow>
   bind_fault (um_at m a) (\<lambda>b. shl_byte b (shift_count i))
     = Inr (push_bit (8 * i) (ucast (byte_at m a)))"
  by (auto simp add: um_contains_def um_at_def byte_at_def bind_fault_def shl_byte_def
        shift_count_small)

lemma const_step_absent: "\<not> um_contains m a \<Longrightarrow> byte_at m a = 0"
  by (simp add: um_contains_def byte_at_def)

lemma le_bytes_shift:
  "push_bit (8 * i) (ucast (byte_at m a)) OR push_bit (8 * Suc i) (le_bytes m (a + 1) n)
     = push_bit (8 * i) (le_bytes m a (Suc n))"
  by (simp add: push_bit_or push_bit_push_bit ac_simps flip: push_bit_add)

lemma readMemConst_loop_value:
  "i + n \<le> 4 \<Longrightarrow>
   readMemConst_loop n i a acc m = Inr (acc OR push_bit (8 * i) (le_bytes m a n))"
proof (induction n arbitrary: i a acc)
  case 0
  then show ?case by simp
next
  case (Suc n)
  then have i: "i < 4" and rest: "Suc i + n \<le> 4" by simp_all
  have byte: "(if um_contains m a then bind_fault (um_at m a) (\<lambda>b. shl_byte b (shift_count i))
                 else Inr 0)
                = Inr (push_bit (8 * i) (ucast (byte_at m a)))"
    using i by (simp add: const_step const_step_absent)
  show ?case
    by (simp only: readMemConst_loop.simps byte)
      (simp only: bind_fault_def sum.case Suc.IH [OF rest] or.assoc le_bytes_shift)
qed

lemma le_bytes_absent:
  "(\<And>j. j < n \<Longrightarrow> byte_at m (a + of_nat j) = 0) \<Longrightarrow> le_bytes m a n = 0"
proof (induction n arbitrary: a)
  case 0
  then show ?case by simp
next
  case (Suc n)
  have "byte_at m a = 0" using Suc.prems [of 0] by simp
  moreover have "le_bytes m (a + 1) n = 0"
  proof (rule Suc.IH)
    fix j assume "j < n"
    then show "byte_at m (a + 1 + of_nat j) = 0" using Suc.prems [of "Suc j"] by (simp add: ac_simps)
  qed
  ultimately show ?case by simp
qed


lemma readMemConst_loop_fault:
  "readMemConst_loop n i a acc m = Inl e \<Longrightarrow> e = UndefinedShift"
proof (induction n arbitrary: i a acc)
  case 0
  then show ?case by simp
next
  case (Suc n)
  then show ?case
    by (auto simp add: bind_fault_def um_contains_def um_at_def shl_byte_def
          split: sum.splits option.splits if_splits)
qed

lemma small_unsigned: "w \<le> (4 :: 32 word) \<Longrightarrow> unat w \<le> 4"
  by (simp add: word_le_nat_alt)



lemma assembled_le_bytes:
  "i + n \<le> 4 \<Longrightarrow> assembled m a i n = push_bit (8 * i) (le_bytes m a n)"
proof (induction n arbitrary: i a)
  case 0
  then show ?case by simp
next
  case (Suc n)
  then have i: "i < 4" and rest: "Suc i + n \<le> 4" by simp_all
  show ?case
    by (simp only: assembled.simps shift_count_small [OF i] Suc.IH [OF rest] le_bytes_shift)
qed











section \<open>The region index\<close>

lemma map_lower_bound_None: "map_lower_bound m k = None \<Longrightarrow> (k', v) \<in> set m \<Longrightarrow> k' < k"
  by (induction m) (auto split: if_splits)

lemma map_lower_bound_Some:
  "map_lower_bound m k = Some (k0, v0) \<Longrightarrow> (k0, v0) \<in> set m \<and> k \<le> k0"
  by (induction m) (auto split: if_splits)

lemma map_lower_bound_least:
  "sorted_wrt (<) (map fst m) \<Longrightarrow> map_lower_bound m k = Some (k0, v0) \<Longrightarrow>
   (k', v) \<in> set m \<Longrightarrow> k \<le> k' \<Longrightarrow> k0 \<le> k'"
  by (induction m) (auto split: if_splits)

lemma sorted_keys_distinct:
  "sorted_wrt (<) (map fst m) \<Longrightarrow> distinct (map fst m)" for m :: "'v ordered_map"
  using strict_sorted_iff [of "map fst m"] by blast

lemma sorted_keys_unique:
  "sorted_wrt (<) (map fst m) \<Longrightarrow> (k, v) \<in> set m \<Longrightarrow> (k, v') \<in> set m \<Longrightarrow> v = v'"
  for m :: "'v ordered_map"
  by (rule eq_key_imp_eq_value [OF sorted_keys_distinct])

lemma sorted_head_below:
  "sorted_wrt (<) (map fst ((k', v') # m)) \<Longrightarrow> (k, v) \<in> set m \<Longrightarrow> k' < (k :: 32 word)"
  by force

lemma set_map_assign:
  "sorted_wrt (<) (map fst m) \<Longrightarrow>
   set (map_assign m k v) = insert (k, v) {(k', v') \<in> set m. k' \<noteq> k}"
proof (induction m)
  case Nil
  then show ?case by simp
next
  case (Cons e m)
  obtain k' v' where e: "e = (k', v')" by (cases e)
  from Cons.prems have tail: "sorted_wrt (<) (map fst m)" by simp
  have above: "k' < k''" if "(k'', v'') \<in> set m" for k'' v''
    using Cons.prems that unfolding e by (rule sorted_head_below)
  show ?case
  proof (cases "k < k'")
    case True
    with above have "k'' \<noteq> k" if "(k'', v'') \<in> set m" for k'' v''
      using that by fastforce
    with True show ?thesis unfolding e by auto
  next
    case False
    show ?thesis
    proof (cases "k = k'")
      case True
      with above have "k'' \<noteq> k" if "(k'', v'') \<in> set m" for k'' v''
        using that by fastforce
      with True show ?thesis unfolding e by auto
    next
      case ne: False
      with False Cons.IH [OF tail] show ?thesis unfolding e by auto
    qed
  qed
qed

lemma sorted_map_assign:
  "sorted_wrt (<) (map fst m) \<Longrightarrow> sorted_wrt (<) (map fst (map_assign m k v))"
proof (induction m)
  case Nil
  then show ?case by simp
next
  case (Cons e m)
  obtain k' v' where e: "e = (k', v')" by (cases e)
  from Cons.prems have tail: "sorted_wrt (<) (map fst m)" by simp
  have keys: "fst ` set (map_assign m k v) = insert k (fst ` set m)"
    using set_map_assign [OF tail, of k v] by force
  show ?case
  proof (cases "k < k'")
    case True
    with Cons.prems e show ?thesis by auto
  next
    case False
    show ?thesis
    proof (cases "k = k'")
      case True
      with Cons.prems e show ?thesis by auto
    next
      case ne: False
      with False have "k' < k" by simp
      with Cons.prems e False ne Cons.IH [OF tail] keys show ?thesis by auto
    qed
  qed
qed

lemma sorted_map_erase:
  "sorted_wrt (<) (map fst m) \<Longrightarrow> sorted_wrt (<) (map fst (map_erase m k))"
  by (induction m) (auto simp add: map_erase_def AList.delete_eq)

lemma set_map_erase: "set (map_erase m k) = {(k', v') \<in> set m. k' \<noteq> k}"
  by (auto simp add: map_erase_def AList.delete_eq)


lemma last_key_mod:
  "uint (b + sz - 1 :: 32 word) = (uint b + uint sz - 1) mod 2 ^ 32"
proof -
  have "b + sz - 1 = word_of_int (uint b + uint sz - 1)" by simp
  then show ?thesis by (simp only: uint_word_of_int) simp
qed

lemma last_key_above_base:
  "0 < sz \<Longrightarrow> b \<le> b + sz - 1 \<Longrightarrow> uint (b + sz - 1 :: 32 word) = uint b + uint sz - 1"
proof -
  assume sz: "0 < sz" and le: "b \<le> b + sz - 1"
  let ?t = "uint b + uint sz - 1"
  from sz have s0: "0 < uint sz" by (simp add: word_less_def)
  have b0: "0 \<le> uint b" by simp
  have s1: "uint sz < 2 ^ 32" using uint_bounded [of sz] by simp
  have b1: "uint b < 2 ^ 32" using uint_bounded [of b] by simp
  from le have le': "uint b \<le> ?t mod 2 ^ 32" by (simp add: word_le_def last_key_mod)
  show ?thesis
  proof (cases "?t < 2 ^ 32")
    case True
    moreover from s0 b0 have "0 \<le> ?t" by linarith
    ultimately show ?thesis by (simp add: last_key_mod)
  next
    case False
    then have ge: "2 ^ 32 \<le> ?t" by simp
    from s1 b1 have "?t - 2 ^ 32 < 2 ^ 32" by linarith
    moreover from ge have "0 \<le> ?t - 2 ^ 32" by simp
    ultimately have "(?t - 2 ^ 32) mod 2 ^ 32 = ?t - 2 ^ 32" by simp
    moreover have "(?t - 2 ^ 32) mod 2 ^ 32 = ?t mod 2 ^ 32"
      by (rule minus_mod_self2)
    ultimately have "?t mod 2 ^ 32 = ?t - 2 ^ 32" by simp
    with le' s1 show ?thesis by linarith
  qed
qed

lemma last_key_no_wrap:
  "0 < sz \<Longrightarrow> uint b + uint sz - 1 < 2 ^ 32 \<Longrightarrow> uint (b + sz - 1 :: 32 word) = uint b + uint sz - 1"
proof -
  assume sz: "0 < sz" and lt: "uint b + uint sz - 1 < 2 ^ 32"
  from sz have "0 < uint sz" by (simp add: word_less_def)
  moreover have "0 \<le> uint b" by simp
  ultimately have "0 \<le> uint b + uint sz - 1" by linarith
  with lt show ?thesis by (simp add: last_key_mod)
qed

lemma region_indexD:
  "region_index m \<Longrightarrow> (k, r) \<in> set m \<Longrightarrow> k = base r + size_mm r - 1 \<and> 0 < size_mm r"
  by (auto simp add: region_index_def)

lemma region_index_sorted: "region_index m \<Longrightarrow> sorted_wrt (<) (map fst m)"
  by (simp add: region_index_def)

lemma findMMapRegion_Some_iff:
  "findMMapRegion s a = Some r \<longleftrightarrow>
     (\<exists>k. map_lower_bound (m_mmapRegions s) a = Some (k, r) \<and> base r \<le> a)"
  by (cases "m_mmapRegions s")
     (auto simp add: findMMapRegion_def not_less split: option.splits if_splits)

lemma found_covers:
  assumes "region_index (m_mmapRegions s)" and "findMMapRegion s a = Some r"
  shows "\<exists>k. (k, r) \<in> set (m_mmapRegions s) \<and> a \<le> k \<and> covers r a"
proof -
  from assms(2) obtain k where lb: "map_lower_bound (m_mmapRegions s) a = Some (k, r)"
    and ba: "base r \<le> a"
    by (auto simp add: findMMapRegion_Some_iff)
  from map_lower_bound_Some [OF lb] have mem: "(k, r) \<in> set (m_mmapRegions s)" and ak: "a \<le> k"
    by simp_all
  from region_indexD [OF assms(1) mem] have k: "k = base r + size_mm r - 1" and sz: "0 < size_mm r"
    by simp_all
  from ba ak have "base r \<le> k" by simp
  with k sz have "uint k = uint (base r) + uint (size_mm r) - 1"
    using last_key_above_base [of "size_mm r" "base r"] by simp
  with ba ak have "covers r a"
    by (simp add: covers_def last_address_def word_le_def)
  with mem ak show ?thesis by blast
qed

lemma covering_found:
  assumes idx: "region_index (m_mmapRegions s)"
    and nw: "no_wrap (m_mmapRegions s)"
    and dj: "pairwise_disjoint (m_mmapRegions s)"
    and mem: "(k, r) \<in> set (m_mmapRegions s)"
    and cov: "covers r a"
  shows "findMMapRegion s a = Some r"
proof -
  let ?m = "m_mmapRegions s"
  have last: "uint k' = last_address r'" if "(k', r') \<in> set ?m" for k' r'
  proof -
    from region_indexD [OF idx that] have "k' = base r' + size_mm r' - 1" "0 < size_mm r'"
      by simp_all
    moreover from nw that have "last_address r' < 2 ^ 32" by (auto simp add: no_wrap_def)
    ultimately show ?thesis
      using last_key_no_wrap [of "size_mm r'" "base r'"] by (simp add: last_address_def)
  qed
  have base_le: "uint (base r') \<le> last_address r'" if "(k', r') \<in> set ?m" for k' r'
  proof -
    from region_indexD [OF idx that] have "0 < size_mm r'" by simp
    then have "0 < uint (size_mm r')" by (simp add: word_less_def)
    then show ?thesis by (simp add: last_address_def)
  qed
  from cov have ba: "base r \<le> a" and al: "uint a \<le> last_address r"
    by (simp_all add: covers_def word_le_def)
  from al last [OF mem] have ak: "a \<le> k" by (simp add: word_le_def)
  obtain k0 r0 where lb: "map_lower_bound ?m a = Some (k0, r0)"
  proof (cases "map_lower_bound ?m a")
    case None
    from map_lower_bound_None [OF None mem] ak show ?thesis by simp
  next
    case (Some e)
    with that show ?thesis by (cases e) simp
  qed
  from map_lower_bound_Some [OF lb] have mem0: "(k0, r0) \<in> set ?m" and ak0: "a \<le> k0"
    by simp_all
  from map_lower_bound_least [OF region_index_sorted [OF idx] lb mem ak] have k0k: "k0 \<le> k" .
  have "k0 = k"
  proof (rule ccontr)
    assume ne: "k0 \<noteq> k"
    with dj mem mem0 have "\<not> regions_overlap r0 r"
      by (fastforce simp add: pairwise_disjoint_def)
    moreover from ba ak0 last [OF mem0] have "uint (base r) \<le> last_address r0"
      by (simp add: word_le_def)
    ultimately have "last_address r < uint (base r0)"
      by (simp add: regions_overlap_def)
    with base_le [OF mem0] last [OF mem0] last [OF mem] have "k < k0"
      by (simp add: word_less_def)
    with k0k show False by simp
  qed
  with mem mem0 have "r0 = r"
    using sorted_keys_unique [OF region_index_sorted [OF idx]] by blast
  with lb ba show ?thesis by (auto simp add: findMMapRegion_Some_iff)
qed

lemma uncovered_not_found:
  assumes "region_index (m_mmapRegions s)"
    and "\<And>k r. (k, r) \<in> set (m_mmapRegions s) \<Longrightarrow> \<not> covers r a"
  shows "findMMapRegion s a = None"
proof (cases "findMMapRegion s a")
  case None
  then show ?thesis .
next
  case (Some r)
  from found_covers [OF assms(1) Some] assms(2) show ?thesis by blast
qed


lemma region_index_empty: "region_index []"
  by (simp add: region_index_def)

lemma addIORegion_region_index:
  assumes "region_index (m_mmapRegions s)" and "addIORegion s b sz iof = Inr s'"
  shows "region_index (m_mmapRegions s') \<and> sparse s' = sparse s"
proof -
  let ?r = "\<lparr>base = b, size_mm = sz, io = iof\<rparr>"
  from assms(2) have sz: "0 < sz"
    and s': "s' = s\<lparr>m_mmapRegions := map_assign (m_mmapRegions s) (b + sz - 1) ?r\<rparr>"
    by (auto simp add: addIORegion_def split: if_splits)
  from assms(1) have sorted: "sorted_wrt (<) (map fst (m_mmapRegions s))"
    by (rule region_index_sorted)
  have "region_index (map_assign (m_mmapRegions s) (b + sz - 1) ?r)"
    unfolding region_index_def
  proof (intro conjI)
    show "sorted_wrt (<) (map fst (map_assign (m_mmapRegions s) (b + sz - 1) ?r))"
      using sorted by (rule sorted_map_assign)
    show "\<forall>(k, r)\<in>set (map_assign (m_mmapRegions s) (b + sz - 1) ?r).
            k = base r + size_mm r - 1 \<and> 0 < size_mm r"
      using assms(1) sz by (auto simp add: set_map_assign [OF sorted] dest: region_indexD)
  qed
  with s' show ?thesis by simp
qed

lemma removeIORegion_region_index:
  assumes "region_index (m_mmapRegions s)" and "removeIORegion s b sz = Inr s'"
  shows "region_index (m_mmapRegions s') \<and> sparse s' = sparse s"
proof -
  from assms(2) have s': "s' = s\<lparr>m_mmapRegions := map_erase (m_mmapRegions s) (b + sz - 1)\<rparr>"
    by (auto simp add: removeIORegion_def split: option.splits)
  have "region_index (map_erase (m_mmapRegions s) (b + sz - 1))"
    unfolding region_index_def
  proof (intro conjI)
    show "sorted_wrt (<) (map fst (map_erase (m_mmapRegions s) (b + sz - 1)))"
      using region_index_sorted [OF assms(1)] by (rule sorted_map_erase)
    show "\<forall>(k, r)\<in>set (map_erase (m_mmapRegions s) (b + sz - 1)).
            k = base r + size_mm r - 1 \<and> 0 < size_mm r"
      using assms(1) by (auto simp add: set_map_erase dest: region_indexD)
  qed
  with s' show ?thesis by simp
qed

lemma addIORegions_region_index:
  "region_index (m_mmapRegions s) \<Longrightarrow> addIORegions rs s = Inr s' \<Longrightarrow>
   region_index (m_mmapRegions s') \<and> sparse s' = sparse s"
proof (induction rs arbitrary: s)
  case Nil
  then show ?case by simp
next
  case (Cons x rs)
  obtain b sz iof where x: "x = (b, sz, iof)" by (cases x)
  from Cons.prems(2) obtain s1 where add: "addIORegion s b sz iof = Inr s1"
    and rest: "addIORegions rs s1 = Inr s'"
    by (auto simp add: x bind_fault_def split: sum.splits)
  from addIORegion_region_index [OF Cons.prems(1) add] Cons.IH [OF _ rest]
  show ?case by simp
qed

section \<open>Lookup of the covering region\<close>

text \<open>
  C3, as amended. In a region index whose regions are pairwise disjoint and none of which
  runs past the last address \<open>2^32 - 1\<close>, \<open>findMMapRegion\<close> at an address \<open>a\<close> returns a region
  exactly when that region is registered and covers \<open>a\<close> (so the covering region is unique),
  and returns none exactly when no registered region covers \<open>a\<close>.
\<close>

theorem findMMapRegion_interval_containment:
  assumes "region_index (m_mmapRegions s)"
    and "no_wrap (m_mmapRegions s)"
    and "pairwise_disjoint (m_mmapRegions s)"
  shows "(findMMapRegion s a = Some r \<longleftrightarrow> (\<exists>k. (k, r) \<in> set (m_mmapRegions s) \<and> covers r a)) \<and>
         (findMMapRegion s a = None \<longleftrightarrow> (\<forall>(k, r') \<in> set (m_mmapRegions s). \<not> covers r' a))"
proof
  show "findMMapRegion s a = Some r \<longleftrightarrow> (\<exists>k. (k, r) \<in> set (m_mmapRegions s) \<and> covers r a)"
    using found_covers [OF assms(1)] covering_found [OF assms] by blast
  show "findMMapRegion s a = None \<longleftrightarrow> (\<forall>(k, r') \<in> set (m_mmapRegions s). \<not> covers r' a)"
  proof
    assume none: "findMMapRegion s a = None"
    show "\<forall>(k, r') \<in> set (m_mmapRegions s). \<not> covers r' a"
    proof (clarify)
      fix k r' assume "(k, r') \<in> set (m_mmapRegions s)" "covers r' a"
      from covering_found [OF assms this] none show False by simp
    qed
  next
    assume "\<forall>(k, r') \<in> set (m_mmapRegions s). \<not> covers r' a"
    then show "findMMapRegion s a = None"
      using uncovered_not_found [OF assms(1)] by blast
  qed
qed

lemma addIORegions_step:
  "addIORegion s b sz iof = Inr s1 \<Longrightarrow> addIORegions ((b, sz, iof) # rs) s = addIORegions rs s1"
  by (simp add: bind_fault_def)

lemma empty_with_regions: "empty_AddressSpaceMM = with_regions []"
  by (simp add: empty_AddressSpaceMM_def with_regions_def)

lemma two_regions_facts:
  "region_index [(0x20FF, region 0x2000 0x100), (0x30FF, region 0x3000 0x100)]"
  "no_wrap [(0x20FF, region 0x2000 0x100), (0x30FF, region 0x3000 0x100)]"
  "pairwise_disjoint [(0x20FF, region 0x2000 0x100), (0x30FF, region 0x3000 0x100)]"
  by (simp_all add: region_index_def no_wrap_def pairwise_disjoint_def regions_overlap_def
        last_address_def region_def)

lemma two_regions_built:
  "addIORegions [(0x2000, 0x100, recorder), (0x3000, 0x100, recorder)] empty_AddressSpaceMM
     = Inr (with_regions [(0x20FF, region 0x2000 0x100), (0x30FF, region 0x3000 0x100)])"
proof -
  have a1: "addIORegion (with_regions []) 0x2000 0x100 recorder
          = Inr (with_regions [(0x20FF, region 0x2000 0x100)])"
    by (simp add: addIORegion_def findMMapRegion_def with_regions_def region_def)
  have a2: "addIORegion (with_regions [(0x20FF, region 0x2000 0x100)]) 0x3000 0x100 recorder
          = Inr (with_regions [(0x20FF, region 0x2000 0x100), (0x30FF, region 0x3000 0x100)])"
    by (simp add: addIORegion_def findMMapRegion_def with_regions_def region_def)
  show ?thesis
    by (simp only: empty_with_regions addIORegions_step [OF a1] addIORegions_step [OF a2]
          addIORegions.simps(1))
qed


theorem findMMapRegion_interval_containment_witness:
  "addIORegions [(0x2000, 0x100, recorder), (0x3000, 0x100, recorder)] empty_AddressSpaceMM
     = Inr (with_regions [(0x20FF, region 0x2000 0x100), (0x30FF, region 0x3000 0x100)]) \<and>
   region_index [(0x20FF, region 0x2000 0x100), (0x30FF, region 0x3000 0x100)] \<and>
   no_wrap [(0x20FF, region 0x2000 0x100), (0x30FF, region 0x3000 0x100)] \<and>
   pairwise_disjoint [(0x20FF, region 0x2000 0x100), (0x30FF, region 0x3000 0x100)] \<and>
   findMMapRegion (with_regions [(0x20FF, region 0x2000 0x100), (0x30FF, region 0x3000 0x100)])
     0x2000 = Some (region 0x2000 0x100) \<and>
   findMMapRegion (with_regions [(0x20FF, region 0x2000 0x100), (0x30FF, region 0x3000 0x100)])
     0x20FF = Some (region 0x2000 0x100) \<and>
   findMMapRegion (with_regions [(0x20FF, region 0x2000 0x100), (0x30FF, region 0x3000 0x100)])
     0x2100 = None"
proof -
  let ?m = "[(0x20FF, region 0x2000 0x100), (0x30FF, region 0x3000 0x100)]"
  have m: "m_mmapRegions (with_regions ?m) = ?m" by (simp add: with_regions_def)
  have ok: "region_index (m_mmapRegions (with_regions ?m))"
    "no_wrap (m_mmapRegions (with_regions ?m))"
    "pairwise_disjoint (m_mmapRegions (with_regions ?m))"
    by (simp_all only: m two_regions_facts)
  have c1: "(0x20FF, region 0x2000 0x100) \<in> set (m_mmapRegions (with_regions ?m))"
    by (simp only: m) simp
  have c2: "covers (region 0x2000 0x100) 0x2000" 
    by (simp add: covers_def last_address_def region_def)
  have c3: "covers (region 0x2000 0x100) 0x20FF"
    by (simp add: covers_def last_address_def region_def)
  have c4: "\<forall>(k, r') \<in> set (m_mmapRegions (with_regions ?m)). \<not> covers r' 0x2100"
    by (simp only: m) (simp add: covers_def last_address_def region_def)
  from findMMapRegion_interval_containment [OF ok, of "0x2000" "region 0x2000 0x100"] c1 c2
  have f1: "findMMapRegion (with_regions ?m) 0x2000 = Some (region 0x2000 0x100)"
    by blast
  from findMMapRegion_interval_containment [OF ok, of "0x20FF" "region 0x2000 0x100"] c1 c3
  have f2: "findMMapRegion (with_regions ?m) 0x20FF = Some (region 0x2000 0x100)"
    by blast
  from findMMapRegion_interval_containment [OF ok, of "0x2100"] c4
  have f3: "findMMapRegion (with_regions ?m) 0x2100 = None"
    by blast
  from two_regions_built two_regions_facts f1 f2 f3 show ?thesis by blast
qed


theorem findMMapRegion_wrapping_region_counterexample:
  "addIORegions [(0xFFFFFFF0, 0x20, recorder), (5, 0x1C, recorder)] empty_AddressSpaceMM
     = Inr (with_regions [(0xF, region 0xFFFFFFF0 0x20), (0x20, region 5 0x1C)]) \<and>
   pairwise_disjoint [(0xF, region 0xFFFFFFF0 0x20), (0x20, region 5 0x1C)] \<and>
   covers (region 5 0x1C) 8 \<and>
   findMMapRegion (with_regions [(0xF, region 0xFFFFFFF0 0x20), (0x20, region 5 0x1C)]) 8 = None \<and>
   covers (region 0xFFFFFFF0 0x20) 0xFFFFFFF8 \<and>
   findMMapRegion (with_regions [(0xF, region 0xFFFFFFF0 0x20)]) 0xFFFFFFF8 = None"
proof -
  have a1: "addIORegion (with_regions []) 0xFFFFFFF0 0x20 recorder
          = Inr (with_regions [(0xF, region 0xFFFFFFF0 0x20)])"
    by (simp add: addIORegion_def findMMapRegion_def with_regions_def region_def)
  have a2: "addIORegion (with_regions [(0xF, region 0xFFFFFFF0 0x20)]) 5 0x1C recorder
          = Inr (with_regions [(0xF, region 0xFFFFFFF0 0x20), (0x20, region 5 0x1C)])"
    by (simp add: addIORegion_def findMMapRegion_def with_regions_def region_def)
  have built: "addIORegions [(0xFFFFFFF0, 0x20, recorder), (5, 0x1C, recorder)]
                 empty_AddressSpaceMM
     = Inr (with_regions [(0xF, region 0xFFFFFFF0 0x20), (0x20, region 5 0x1C)])"
    by (simp only: empty_with_regions addIORegions_step [OF a1] addIORegions_step [OF a2]
          addIORegions.simps(1))
  have dj: "pairwise_disjoint [(0xF, region 0xFFFFFFF0 0x20), (0x20, region 5 0x1C)]"
    by (simp add: pairwise_disjoint_def regions_overlap_def last_address_def region_def)
  have cov: "covers (region 5 0x1C) 8"
    by (simp add: covers_def last_address_def region_def)
  have none: "findMMapRegion (with_regions [(0xF, region 0xFFFFFFF0 0x20), (0x20, region 5 0x1C)]) 8
                = None"
    by (simp add: findMMapRegion_def with_regions_def region_def)
  have cov': "covers (region 0xFFFFFFF0 0x20) 0xFFFFFFF8"
    by (simp add: covers_def last_address_def region_def)
  have none': "findMMapRegion (with_regions [(0xF, region 0xFFFFFFF0 0x20)]) 0xFFFFFFF8 = None"
    by (simp add: findMMapRegion_def with_regions_def region_def)
  from built dj cov none cov' none' show ?thesis by blast
qed

section \<open>Registration of regions\<close>

text \<open>
  C1. The regions left by a sequence of \<open>addIORegion\<close> calls that passes the assertions are
  meant to be pairwise disjoint. The assertion looks up the two end points of the new
  region only, so a new region that contains a registered one passes it: with
  \<open>[0x1800,0x18FF]\<close> registered, adding \<open>[0x1000,0x1FFF]\<close> succeeds, and both regions then
  cover \<open>0x1800\<close>. The example of the specification, adding \<open>[0x1000,0x1FFF]\<close> while \<open>[0x1800,0x27FF]\<close>
  is registered, does fail the assertion.
\<close>

theorem addIORegion_accepts_enclosing_region:
  "addIORegions [(0x1800, 0x100, recorder), (0x1000, 0x1000, recorder)] empty_AddressSpaceMM
     = Inr (with_regions [(0x18FF, region 0x1800 0x100), (0x1FFF, region 0x1000 0x1000)]) \<and>
   regions_overlap (region 0x1800 0x100) (region 0x1000 0x1000) \<and>
   covers (region 0x1800 0x100) 0x1800 \<and>
   covers (region 0x1000 0x1000) 0x1800 \<and>
   addIORegions [(0x1800, 0x1000, recorder), (0x1000, 0x1000, recorder)] empty_AddressSpaceMM
     = Inl AssertNoOverlap"
proof -
  have a1: "addIORegion (with_regions []) 0x1800 0x100 recorder
          = Inr (with_regions [(0x18FF, region 0x1800 0x100)])"
    by (simp add: addIORegion_def findMMapRegion_def with_regions_def region_def)
  have a2: "addIORegion (with_regions [(0x18FF, region 0x1800 0x100)]) 0x1000 0x1000 recorder
          = Inr (with_regions [(0x18FF, region 0x1800 0x100), (0x1FFF, region 0x1000 0x1000)])"
    by (simp add: addIORegion_def findMMapRegion_def with_regions_def region_def)
  have built: "addIORegions [(0x1800, 0x100, recorder), (0x1000, 0x1000, recorder)]
                 empty_AddressSpaceMM
     = Inr (with_regions [(0x18FF, region 0x1800 0x100), (0x1FFF, region 0x1000 0x1000)])"
    by (simp only: empty_with_regions addIORegions_step [OF a1] addIORegions_step [OF a2]
          addIORegions.simps(1))
  have ov: "regions_overlap (region 0x1800 0x100) (region 0x1000 0x1000)"
    by (simp add: regions_overlap_def last_address_def region_def)
  have c1: "covers (region 0x1800 0x100) 0x1800"
    by (simp add: covers_def last_address_def region_def)
  have c2: "covers (region 0x1000 0x1000) 0x1800"
    by (simp add: covers_def last_address_def region_def)
  have b1: "addIORegion (with_regions []) 0x1800 0x1000 recorder
          = Inr (with_regions [(0x27FF, region 0x1800 0x1000)])"
    by (simp add: addIORegion_def findMMapRegion_def with_regions_def region_def)
  have b2: "addIORegion (with_regions [(0x27FF, region 0x1800 0x1000)]) 0x1000 0x1000 recorder
          = Inl AssertNoOverlap"
    by (simp add: addIORegion_def findMMapRegion_def with_regions_def region_def)
  have rejected: "addIORegions [(0x1800, 0x1000, recorder), (0x1000, 0x1000, recorder)]
                    empty_AddressSpaceMM = Inl AssertNoOverlap"
    by (simp only: empty_with_regions addIORegions_step [OF b1])
       (simp add: b2 bind_fault_def)
  from built ov c1 c2 rejected show ?thesis by blast
qed

lemma map_erase_filter: "map_erase m k = filter (\<lambda>(k', r). k' \<noteq> k) m"
  by (induction m) (auto simp add: map_erase_def AList.delete_eq)

lemma map_find_None_iff: "map_find m k = None \<longleftrightarrow> k \<notin> fst ` set m"
  by (simp add: map_find_def map_of_eq_None_iff)

text \<open>
  C2, as amended. \<open>removeIORegion(base, size)\<close> looks at \<open>base + size - 1\<close> alone: the assertion
  fails exactly when no region is keyed by that address, and otherwise exactly the entry
  with that key is removed, whatever base and size it was registered with. Two calls whose
  \<open>base + size\<close> agree do the same.
\<close>

theorem removeIORegion_by_last_address:
  "removeIORegion s b sz =
     (if b + sz - 1 \<in> fst ` set (m_mmapRegions s)
      then Inr (s\<lparr>m_mmapRegions := filter (\<lambda>(k, r). k \<noteq> b + sz - 1) (m_mmapRegions s)\<rparr>)
      else Inl AssertRegionExists) \<and>
   (b + sz = b' + sz' \<longrightarrow> removeIORegion s b' sz' = removeIORegion s b sz)"
proof
  show "removeIORegion s b sz =
     (if b + sz - 1 \<in> fst ` set (m_mmapRegions s)
      then Inr (s\<lparr>m_mmapRegions := filter (\<lambda>(k, r). k \<noteq> b + sz - 1) (m_mmapRegions s)\<rparr>)
      else Inl AssertRegionExists)"
  proof (cases "map_find (m_mmapRegions s) (b + sz - 1)")
    case None
    then show ?thesis by (simp add: removeIORegion_def map_find_None_iff [symmetric])
  next
    case (Some r)
    then have "b + sz - 1 \<in> fst ` set (m_mmapRegions s)"
      using map_find_None_iff [of "m_mmapRegions s" "b + sz - 1"] by simp
    with Some show ?thesis by (simp add: removeIORegion_def map_erase_filter)
  qed
  show "b + sz = b' + sz' \<longrightarrow> removeIORegion s b' sz' = removeIORegion s b sz"
  proof
    assume "b + sz = b' + sz'"
    then have "b' + sz' - 1 = b + sz - 1" by simp
    then show "removeIORegion s b' sz' = removeIORegion s b sz"
      by (simp only: removeIORegion_def)
  qed
qed

theorem removeIORegion_by_last_address_witness:
  "(0x10F0 :: 32 word) + 0x10 = 0x1000 + 0x100 \<and>
   removeIORegion (with_regions [(0x10FF, region 0x1000 0x100), (0x20FF, region 0x2000 0x100)])
       0x1000 0x100
     = Inr (with_regions [(0x20FF, region 0x2000 0x100)]) \<and>
   removeIORegion (with_regions [(0x10FF, region 0x1000 0x100), (0x20FF, region 0x2000 0x100)])
       0x10F0 0x10
     = Inr (with_regions [(0x20FF, region 0x2000 0x100)]) \<and>
   removeIORegion (with_regions [(0x10FF, region 0x1000 0x100), (0x20FF, region 0x2000 0x100)])
       0x1000 0x80
     = Inl AssertRegionExists"
proof -
  let ?s = "with_regions [(0x10FF, region 0x1000 0x100), (0x20FF, region 0x2000 0x100)]"
  have h: "(0x1000 :: 32 word) + 0x100 = 0x10F0 + 0x10" by simp
  have r1: "removeIORegion ?s 0x1000 0x100 = Inr (with_regions [(0x20FF, region 0x2000 0x100)])"
    using removeIORegion_by_last_address [of ?s "0x1000" "0x100" "0x10F0" "0x10"]
    by (simp add: with_regions_def)
  from removeIORegion_by_last_address [of ?s "0x1000" "0x100" "0x10F0" "0x10"] h
  have "removeIORegion ?s 0x10F0 0x10 = removeIORegion ?s 0x1000 0x100" by blast
  with r1 have r2: "removeIORegion ?s 0x10F0 0x10 = Inr (with_regions [(0x20FF, region 0x2000 0x100)])"
    by simp
  have r3: "removeIORegion ?s 0x1000 0x80 = Inl AssertRegionExists"
    using removeIORegion_by_last_address [of ?s "0x1000" "0x80" "0x1000" "0x80"]
    by (simp add: with_regions_def)
  from h r1 r2 r3 show ?thesis by simp
qed

theorem removeIORegion_mismatched_base_counterexample:
  "map_find (m_mmapRegions (with_regions [(0x10FF, region 0x1000 0x100)])) 0x10FF
     = Some (region 0x1000 0x100) \<and>
   base (region 0x1000 0x100) \<noteq> 0x10F0 \<and>
   size_mm (region 0x1000 0x100) \<noteq> 0x10 \<and>
   removeIORegion (with_regions [(0x10FF, region 0x1000 0x100)]) 0x10F0 0x10
     = Inr (with_regions [])"
  by (simp add: removeIORegion_def map_find_def map_erase_def AList.delete_eq
        with_regions_def region_def)

section \<open>Dispatch to regions\<close>

lemma covering_found_conj:
  "region_index (m_mmapRegions s) \<and> no_wrap (m_mmapRegions s) \<and>
   pairwise_disjoint (m_mmapRegions s) \<and> (k, r) \<in> set (m_mmapRegions s) \<and> covers r a
   \<Longrightarrow> findMMapRegion s a = Some r"
  using covering_found by blast

text \<open>
  C7, as amended. In an index of pairwise disjoint regions none of which runs past the last
  address \<open>2^32 - 1\<close>, the lookup at an address finds the registered region that covers it,
  and finds none where no region covers it. An access of \<open>AddressSpaceMM\<close> (\<open>writeMem\<close>,
  \<open>readMem\<close>, \<open>readMemConst\<close>) for whose address the lookup finds a region is handed to the
  callback of that region, with the offset \<open>address - region.base\<close> and the size or width it
  was called with; the address space itself, and so its byte store, is left as it was. Where
  the lookup finds no region, the access is the access of the base class on the byte store,
  and no callback runs.
\<close>

theorem region_access_forwarded:
  "(findMMapRegion s a = Some r \<longrightarrow>
      writeMemMM s a v sz w = (s, ioWrite (io r) (a - base r) v sz w) \<and>
      readMemMM s a wd w =
        Inr (fst (ioRead (io r) (a - base r) wd w), s, snd (ioRead (io r) (a - base r) wd w)) \<and>
      readMemConstMM s a wd w = Inr (ioRead (io r) (a - base r) wd w)) \<and>
   (findMMapRegion s a = None \<longrightarrow>
      writeMemMM s a v sz w = (s\<lparr>sparse := writeMem (sparse s) a v sz\<rparr>, w) \<and>
      readMemMM s a wd w =
        bind_fault (readMem (sparse s) a wd) (\<lambda>(x, sp). Inr (x, s\<lparr>sparse := sp\<rparr>, w)) \<and>
      readMemConstMM s a wd w =
        bind_fault (readMemConst (sparse s) a wd) (\<lambda>x. Inr (x, w))) \<and>
   (region_index (m_mmapRegions s) \<and> no_wrap (m_mmapRegions s) \<and>
    pairwise_disjoint (m_mmapRegions s) \<and> (k, r) \<in> set (m_mmapRegions s) \<and> covers r a \<longrightarrow>
      findMMapRegion s a = Some r) \<and>
   (region_index (m_mmapRegions s) \<and> (\<forall>(k', r') \<in> set (m_mmapRegions s). \<not> covers r' a) \<longrightarrow>
      findMMapRegion s a = None)"
proof (intro conjI impI)
  assume "findMMapRegion s a = Some r"
  then show "writeMemMM s a v sz w = (s, ioWrite (io r) (a - base r) v sz w)"
    and "readMemMM s a wd w =
        Inr (fst (ioRead (io r) (a - base r) wd w), s, snd (ioRead (io r) (a - base r) wd w))"
    and "readMemConstMM s a wd w = Inr (ioRead (io r) (a - base r) wd w)"
    by (simp_all add: writeMemMM_def readMemMM_def readMemConstMM_def case_prod_unfold)
next
  assume "findMMapRegion s a = None"
  then show "writeMemMM s a v sz w = (s\<lparr>sparse := writeMem (sparse s) a v sz\<rparr>, w)"
    and "readMemMM s a wd w =
        bind_fault (readMem (sparse s) a wd) (\<lambda>(x, sp). Inr (x, s\<lparr>sparse := sp\<rparr>, w))"
    and "readMemConstMM s a wd w = bind_fault (readMemConst (sparse s) a wd) (\<lambda>x. Inr (x, w))"
    by (simp_all add: writeMemMM_def readMemMM_def readMemConstMM_def)
next
  assume "region_index (m_mmapRegions s) \<and> no_wrap (m_mmapRegions s) \<and>
    pairwise_disjoint (m_mmapRegions s) \<and> (k, r) \<in> set (m_mmapRegions s) \<and> covers r a"
  then show "findMMapRegion s a = Some r" by (rule covering_found_conj)
next
  assume "region_index (m_mmapRegions s) \<and> (\<forall>(k', r') \<in> set (m_mmapRegions s). \<not> covers r' a)"
  then show "findMMapRegion s a = None"
    using uncovered_not_found [of s a] by blast
qed

lemma one_region_facts:
  "region_index [(0x100F, region 0x1000 0x10)]"
  "no_wrap [(0x100F, region 0x1000 0x10)]"
  "pairwise_disjoint [(0x100F, region 0x1000 0x10)]"
  by (simp_all add: region_index_def no_wrap_def pairwise_disjoint_def regions_overlap_def
        last_address_def region_def)

lemma m_mmapRegions_with_regions: "m_mmapRegions (with_regions m) = m"
  by (simp add: with_regions_def)

theorem region_access_forwarded_witness:
  "findMMapRegion (with_regions [(0x100F, region 0x1000 0x10)]) 0x1005 = Some (region 0x1000 0x10) \<and>
   readMemMM (with_regions [(0x100F, region 0x1000 0x10)]) 0x1005 1 []
     = Inr (5, with_regions [(0x100F, region 0x1000 0x10)], [IoRead 5 1]) \<and>
   readMemConstMM (with_regions [(0x100F, region 0x1000 0x10)]) 0x1005 1 []
     = Inr (5, [IoRead 5 1]) \<and>
   writeMemMM (with_regions [(0x100F, region 0x1000 0x10)]) 0x1005 0xAB 1 []
     = (with_regions [(0x100F, region 0x1000 0x10)], [IoWrite 5 0xAB 1]) \<and>
   findMMapRegion (with_regions [(0x100F, region 0x1000 0x10)]) 0x1010 = None \<and>
   writeMemMM (with_regions [(0x100F, region 0x1000 0x10)]) 0x1010 0xAB 1 []
     = (\<lparr>sparse = AddressSpace [(0x1010, 0xAB)] [],
         m_mmapRegions = [(0x100F, region 0x1000 0x10)]\<rparr>, [])"
proof -
  let ?s = "with_regions [(0x100F, region 0x1000 0x10)]"
  have ok: "region_index (m_mmapRegions ?s) \<and> no_wrap (m_mmapRegions ?s) \<and>
      pairwise_disjoint (m_mmapRegions ?s) \<and>
      (0x100F, region 0x1000 0x10) \<in> set (m_mmapRegions ?s) \<and> covers (region 0x1000 0x10) 0x1005"
    by (simp only: m_mmapRegions_with_regions one_region_facts)
       (simp add: covers_def last_address_def region_def)
  note fw = region_access_forwarded [where s = ?s and r = "region 0x1000 0x10" and k = "0x100F"
      and w = "[]" and wd = 1 and sz = 1 and v = "0xAB"]
  from fw [where a = "0x1005"] ok
  have found: "findMMapRegion ?s 0x1005 = Some (region 0x1000 0x10)" by blast
  have cb: "ioRead (io (region 0x1000 0x10)) (0x1005 - base (region 0x1000 0x10)) 1 []
              = (5, [IoRead 5 1])"
    "ioWrite (io (region 0x1000 0x10)) (0x1005 - base (region 0x1000 0x10)) 0xAB 1 []
              = [IoWrite 5 0xAB 1]"
    by (simp_all add: region_def recorder_def)
  from fw [where a = "0x1005"] found
  have rd: "readMemMM ?s 0x1005 1 [] = Inr (5, ?s, [IoRead 5 1])"
    and rc: "readMemConstMM ?s 0x1005 1 [] = Inr (5, [IoRead 5 1])"
    and wr: "writeMemMM ?s 0x1005 0xAB 1 [] = (?s, [IoWrite 5 0xAB 1])"
    by (simp_all add: cb)
  have none: "findMMapRegion ?s 0x1010 = None"
    by (simp add: findMMapRegion_def with_regions_def region_def)
  have st: "writeMem (sparse ?s) 0x1010 0xAB 1 = AddressSpace [(0x1010, 0xAB)] []"
    by (simp add: with_regions_def empty_AddressSpace_def writeMem_def um_assign_def)
  from fw [where a = "0x1010"] none
  have wr2: "writeMemMM ?s 0x1010 0xAB 1 []
     = (\<lparr>sparse = AddressSpace [(0x1010, 0xAB)] [],
         m_mmapRegions = [(0x100F, region 0x1000 0x10)]\<rparr>, [])"
    by (simp add: st) (simp add: with_regions_def)
  from found rd rc wr none wr2 show ?thesis by blast
qed


lemma wrapping_regions_built:
  "addIORegions [(0xFFFFFFF0, 0x20, recorder), (5, 0x1C, recorder)] empty_AddressSpaceMM
     = Inr (with_regions [(0xF, region 0xFFFFFFF0 0x20), (0x20, region 5 0x1C)])"
proof -
  have a1: "addIORegion (with_regions []) 0xFFFFFFF0 0x20 recorder
          = Inr (with_regions [(0xF, region 0xFFFFFFF0 0x20)])"
    by (simp add: addIORegion_def findMMapRegion_def with_regions_def region_def)
  have a2: "addIORegion (with_regions [(0xF, region 0xFFFFFFF0 0x20)]) 5 0x1C recorder
          = Inr (with_regions [(0xF, region 0xFFFFFFF0 0x20), (0x20, region 5 0x1C)])"
    by (simp add: addIORegion_def findMMapRegion_def with_regions_def region_def)
  show ?thesis
    by (simp only: empty_with_regions addIORegions_step [OF a1] addIORegions_step [OF a2]
          addIORegions.simps(1))
qed

lemma wrapping_regions_facts:
  "pairwise_disjoint [(0xF, region 0xFFFFFFF0 0x20), (0x20, region 5 0x1C)]"
  "covers (region 5 0x1C) 8"
  "findMMapRegion (with_regions [(0xF, region 0xFFFFFFF0 0x20), (0x20, region 5 0x1C)]) 8 = None"
  "covers (region 0xFFFFFFF0 0x20) 0xFFFFFFF8"
  "findMMapRegion (with_regions [(0xF, region 0xFFFFFFF0 0x20)]) 0xFFFFFFF8 = None"
  by (simp_all add: pairwise_disjoint_def regions_overlap_def last_address_def covers_def
        findMMapRegion_def with_regions_def region_def)

theorem region_access_wrapping_region_counterexample:
  "addIORegions [(0xFFFFFFF0, 0x20, recorder), (5, 0x1C, recorder)] empty_AddressSpaceMM
     = Inr (with_regions [(0xF, region 0xFFFFFFF0 0x20), (0x20, region 5 0x1C)]) \<and>
   pairwise_disjoint [(0xF, region 0xFFFFFFF0 0x20), (0x20, region 5 0x1C)] \<and>
   covers (region 5 0x1C) 8 \<and>
   writeMemMM (with_regions [(0xF, region 0xFFFFFFF0 0x20), (0x20, region 5 0x1C)]) 8 0xAB 1 []
     = (\<lparr>sparse = AddressSpace [(8, 0xAB)] [],
         m_mmapRegions = [(0xF, region 0xFFFFFFF0 0x20), (0x20, region 5 0x1C)]\<rparr>, []) \<and>
   covers (region 0xFFFFFFF0 0x20) 0xFFFFFFF8 \<and>
   writeMemMM (with_regions [(0xF, region 0xFFFFFFF0 0x20)]) 0xFFFFFFF8 0xAB 1 []
     = (\<lparr>sparse = AddressSpace [(0xFFFFFFF8, 0xAB)] [],
         m_mmapRegions = [(0xF, region 0xFFFFFFF0 0x20)]\<rparr>, [])"
proof -
  have st: "writeMem empty_AddressSpace 8 0xAB 1 = AddressSpace [(8, 0xAB)] []"
    "writeMem empty_AddressSpace 0xFFFFFFF8 0xAB 1 = AddressSpace [(0xFFFFFFF8, 0xAB)] []"
    by code_simp+
  have w1: "writeMemMM (with_regions [(0xF, region 0xFFFFFFF0 0x20), (0x20, region 5 0x1C)]) 8 0xAB 1 []
     = (\<lparr>sparse = AddressSpace [(8, 0xAB)] [],
         m_mmapRegions = [(0xF, region 0xFFFFFFF0 0x20), (0x20, region 5 0x1C)]\<rparr>, [])"
    by (simp add: writeMemMM_def wrapping_regions_facts(3)) (simp add: with_regions_def st)
  have w2: "writeMemMM (with_regions [(0xF, region 0xFFFFFFF0 0x20)]) 0xFFFFFFF8 0xAB 1 []
     = (\<lparr>sparse = AddressSpace [(0xFFFFFFF8, 0xAB)] [],
         m_mmapRegions = [(0xF, region 0xFFFFFFF0 0x20)]\<rparr>, [])"
    by (simp add: writeMemMM_def wrapping_regions_facts(5)) (simp add: with_regions_def st)
  from wrapping_regions_built wrapping_regions_facts(1,2,4) w1 w2 show ?thesis by blast
qed

text \<open>
  C9, as amended. \<open>AddressSpaceMM::regionType\<close> answers \<open>IO\<close> exactly when the lookup finds a
  region at the address, and \<open>Program\<close> otherwise; in an index of pairwise disjoint regions none
  of which runs past the last address \<open>2^32 - 1\<close>, that is exactly when some registered region
  covers the address. The \<open>regionType\<close> of the base class answers \<open>Program\<close> at every address.
\<close>

theorem regionType_classification:
  "regionType sp a = Program \<and>
   (regionTypeMM s a = IO \<longleftrightarrow> findMMapRegion s a \<noteq> None) \<and>
   (regionTypeMM s a = Program \<longleftrightarrow> findMMapRegion s a = None) \<and>
   (region_index (m_mmapRegions s) \<and> no_wrap (m_mmapRegions s) \<and>
    pairwise_disjoint (m_mmapRegions s) \<longrightarrow>
      (regionTypeMM s a = IO \<longleftrightarrow> (\<exists>(k, r) \<in> set (m_mmapRegions s). covers r a)) \<and>
      (regionTypeMM s a = Program \<longleftrightarrow> \<not> (\<exists>(k, r) \<in> set (m_mmapRegions s). covers r a)))"
proof (intro conjI impI)
  show "regionType sp a = Program" by (simp add: regionType_def)
  show io: "regionTypeMM s a = IO \<longleftrightarrow> findMMapRegion s a \<noteq> None"
    by (simp add: regionTypeMM_def split: option.splits)
  show prog: "regionTypeMM s a = Program \<longleftrightarrow> findMMapRegion s a = None"
    by (simp add: regionTypeMM_def split: option.splits)
  assume ok: "region_index (m_mmapRegions s) \<and> no_wrap (m_mmapRegions s) \<and>
    pairwise_disjoint (m_mmapRegions s)"
  have "findMMapRegion s a \<noteq> None \<longleftrightarrow> (\<exists>(k, r) \<in> set (m_mmapRegions s). covers r a)"
  proof
    assume "findMMapRegion s a \<noteq> None"
    then obtain r where "findMMapRegion s a = Some r" by blast
    from found_covers [OF _ this] ok show "\<exists>(k, r) \<in> set (m_mmapRegions s). covers r a"
      by blast
  next
    assume "\<exists>(k, r) \<in> set (m_mmapRegions s). covers r a"
    then obtain k r where "(k, r) \<in> set (m_mmapRegions s)" "covers r a" by blast
    with ok have "findMMapRegion s a = Some r" using covering_found by blast
    then show "findMMapRegion s a \<noteq> None" by simp
  qed
  with io prog
  show "regionTypeMM s a = IO \<longleftrightarrow> (\<exists>(k, r) \<in> set (m_mmapRegions s). covers r a)"
    and "regionTypeMM s a = Program \<longleftrightarrow> \<not> (\<exists>(k, r) \<in> set (m_mmapRegions s). covers r a)"
    by blast+
qed

theorem regionType_classification_witness:
  "region_index [(0x100F, region 0x1000 0x10)] \<and> no_wrap [(0x100F, region 0x1000 0x10)] \<and>
   pairwise_disjoint [(0x100F, region 0x1000 0x10)] \<and>
   covers (region 0x1000 0x10) 0x100F \<and>
   regionTypeMM (with_regions [(0x100F, region 0x1000 0x10)]) 0x100F = IO \<and>
   regionTypeMM (with_regions [(0x100F, region 0x1000 0x10)]) 0x1010 = Program \<and>
   regionType empty_AddressSpace 0x100F = Program"
proof -
  let ?s = "with_regions [(0x100F, region 0x1000 0x10)]"
  have ok: "region_index (m_mmapRegions ?s) \<and> no_wrap (m_mmapRegions ?s) \<and>
      pairwise_disjoint (m_mmapRegions ?s)"
    by (simp only: m_mmapRegions_with_regions one_region_facts)
  have cov: "covers (region 0x1000 0x10) 0x100F"
    by (simp add: covers_def last_address_def region_def)
  then have c1: "\<exists>(k, r) \<in> set (m_mmapRegions ?s). covers r 0x100F"
    by (simp only: m_mmapRegions_with_regions) simp
  have c2: "\<not> (\<exists>(k, r) \<in> set (m_mmapRegions ?s). covers r 0x1010)"
    by (simp only: m_mmapRegions_with_regions) (simp add: covers_def last_address_def region_def)
  from regionType_classification [where s = ?s and a = "0x100F"] ok c1
  have t1: "regionTypeMM ?s 0x100F = IO" by blast
  from regionType_classification [where s = ?s and a = "0x1010"] ok c2
  have t2: "regionTypeMM ?s 0x1010 = Program" by blast
  from regionType_classification [where sp = empty_AddressSpace and a = "0x100F"]
  have t3: "regionType empty_AddressSpace 0x100F = Program" by blast
  from one_region_facts cov t1 t2 t3 show ?thesis by blast
qed

theorem regionType_wrapping_region_counterexample:
  "addIORegions [(0xFFFFFFF0, 0x20, recorder), (5, 0x1C, recorder)] empty_AddressSpaceMM
     = Inr (with_regions [(0xF, region 0xFFFFFFF0 0x20), (0x20, region 5 0x1C)]) \<and>
   pairwise_disjoint [(0xF, region 0xFFFFFFF0 0x20), (0x20, region 5 0x1C)] \<and>
   covers (region 5 0x1C) 8 \<and>
   regionTypeMM (with_regions [(0xF, region 0xFFFFFFF0 0x20), (0x20, region 5 0x1C)]) 8 = Program \<and>
   covers (region 0xFFFFFFF0 0x20) 0xFFFFFFF8 \<and>
   regionTypeMM (with_regions [(0xF, region 0xFFFFFFF0 0x20)]) 0xFFFFFFF8 = Program"
proof -
  have t1: "regionTypeMM (with_regions [(0xF, region 0xFFFFFFF0 0x20), (0x20, region 5 0x1C)]) 8
              = Program"
    by (simp add: regionTypeMM_def wrapping_regions_facts(3))
  have t2: "regionTypeMM (with_regions [(0xF, region 0xFFFFFFF0 0x20)]) 0xFFFFFFF8 = Program"
    by (simp add: regionTypeMM_def wrapping_regions_facts(5))
  from wrapping_regions_built wrapping_regions_facts(1,2,4) t1 t2 show ?thesis by blast
qed

text \<open>
  C10. The dispatch looks at the starting address only. When no registered region contains
  the starting address of a \<open>writeMem\<close> or \<open>readMem\<close> on an \<open>AddressSpaceMM\<close>, the whole access
  is the access of the base class on the byte store, whatever its size, and the world of the
  callbacks is left as it was: no callback runs, also when later bytes of the access lie
  inside a region. The index is any that \<open>addIORegion\<close> and \<open>removeIORegion\<close> can build
  (\<open>addIORegions_region_index\<close>, \<open>removeIORegion_region_index\<close>); its regions need not be
  disjoint.
\<close>

theorem access_dispatch_by_start_address:
  assumes "region_index (m_mmapRegions s)"
    and "\<forall>(k, r) \<in> set (m_mmapRegions s). \<not> covers r a"
  shows "writeMemMM s a v sz w = (s\<lparr>sparse := writeMem (sparse s) a v sz\<rparr>, w) \<and>
         readMemMM s a wd w =
           bind_fault (readMem (sparse s) a wd) (\<lambda>(x, sp). Inr (x, s\<lparr>sparse := sp\<rparr>, w)) \<and>
         readMemConstMM s a wd w =
           bind_fault (readMemConst (sparse s) a wd) (\<lambda>x. Inr (x, w))"
proof -
  from assms have "findMMapRegion s a = None"
    using uncovered_not_found [of s a] by blast
  then show ?thesis
    by (simp add: writeMemMM_def readMemMM_def readMemConstMM_def)
qed

theorem access_dispatch_by_start_address_witness:
  "region_index [(0x100F, region 0x1000 0x10)] \<and>
   \<not> covers (region 0x1000 0x10) 0x0FFE \<and>
   covers (region 0x1000 0x10) (0x0FFE + 4 - 1) \<and>
   writeMemMM (with_regions [(0x100F, region 0x1000 0x10)]) 0x0FFE 0x44332211 4 []
     = (\<lparr>sparse = AddressSpace [(0x0FFE, 0x11), (0x0FFF, 0x22), (0x1000, 0x33), (0x1001, 0x44)] [],
         m_mmapRegions = [(0x100F, region 0x1000 0x10)]\<rparr>, []) \<and>
   readMemMM \<lparr>sparse = AddressSpace [(0x0FFE, 0x11), (0x0FFF, 0x22), (0x1000, 0x33), (0x1001, 0x44)] [],
         m_mmapRegions = [(0x100F, region 0x1000 0x10)]\<rparr> 0x0FFE 4 []
     = Inr (0x44332211,
         \<lparr>sparse = AddressSpace [(0x0FFE, 0x11), (0x0FFF, 0x22), (0x1000, 0x33), (0x1001, 0x44)] [],
          m_mmapRegions = [(0x100F, region 0x1000 0x10)]\<rparr>, [])"
proof -
  let ?m = "[(0x100F, region 0x1000 0x10)]"
  let ?s = "with_regions ?m"
  let ?sp = "AddressSpace [(0x0FFE, 0x11), (0x0FFF, 0x22), (0x1000, 0x33), (0x1001, 0x44)] []"
  let ?s' = "\<lparr>sparse = ?sp, m_mmapRegions = ?m\<rparr> :: io_event list AddressSpaceMM"
  have idx: "region_index (m_mmapRegions ?s)" "region_index (m_mmapRegions ?s')"
    by (simp_all add: m_mmapRegions_with_regions one_region_facts)
  have nc: "\<not> covers (region 0x1000 0x10) 0x0FFE"
    by (simp add: covers_def last_address_def region_def)
  then have unc: "\<forall>(k, r) \<in> set (m_mmapRegions ?s). \<not> covers r 0x0FFE"
    "\<forall>(k, r) \<in> set (m_mmapRegions ?s'). \<not> covers r 0x0FFE"
    by (simp_all add: m_mmapRegions_with_regions)
  have inside: "covers (region 0x1000 0x10) (0x0FFE + 4 - 1)"
    by (simp add: covers_def last_address_def region_def)
  have st: "writeMem (sparse ?s) 0x0FFE 0x44332211 4 = ?sp"
    unfolding with_regions_def by code_simp
  have rd: "readMem ?sp 0x0FFE 4 = Inr (0x44332211, ?sp)"
    by code_simp
  from access_dispatch_by_start_address [OF idx(1) unc(1), of "0x44332211" 4 "[]" 4]
  have wr: "writeMemMM ?s 0x0FFE 0x44332211 4 [] = (?s', [])"
    by (simp only: st) (simp add: with_regions_def)
  from access_dispatch_by_start_address [OF idx(2) unc(2), of "0x44332211" 4 "[]" 4]
  have rd': "readMemMM ?s' 0x0FFE 4 [] = Inr (0x44332211, ?s', [])"
    by (simp add: rd bind_fault_def)
  from one_region_facts(1) nc inside wr rd' show ?thesis by blast
qed

section \<open>Reset\<close>

lemma ucast_byte_back: "(ucast (ucast b :: 32 word) :: 8 word) = b"
  by (rule bit_eqI) (auto simp add: bit_simps dest: bit_imp_le_length)

lemma sint_one: "nat (sint (1 :: 32 word)) = 1"
  by simp

lemma writeMem_one_byte:
  "writeMem s k (ucast b) 1 = AddressSpace (um_assign (m_data s) k b) (m_initializationMemories s)"
  by (simp add: writeMem_def ucast_low_byte ucast_byte_back)

lemma replay_entries:
  "foldl (\<lambda>s' memData. writeMem s' (fst memData) (ucast (snd memData)) 1) s es
     = AddressSpace (foldl (\<lambda>m memData. um_assign m (fst memData) (snd memData)) (m_data s) es)
         (m_initializationMemories s)"
  by (induction es arbitrary: s) (simp_all add: writeMem_one_byte)

lemma map_of_replay:
  "distinct (map fst es) \<Longrightarrow>
   map_of (foldl (\<lambda>m memData. um_assign m (fst memData) (snd memData)) m es)
     = map_of m ++ map_of es"
proof (induction es arbitrary: m)
  case Nil
  then show ?case by simp
next
  case (Cons e es)
  obtain k b where e: "e = (k, b)" by (cases e)
  from Cons.prems e have fresh: "k \<notin> dom (map_of es)" and rest: "distinct (map fst es)"
    by (simp_all add: dom_map_of_conv_image_fst)
  have "map_of (foldl (\<lambda>m memData. um_assign m (fst memData) (snd memData)) m (e # es))
          = (map_of m)(k \<mapsto> b) ++ map_of es"
    by (simp only: e foldl_Cons fst_conv snd_conv Cons.IH [OF rest] map_of_um_assign)
  also have "\<dots> = (map_of m ++ map_of es)(k \<mapsto> b)"
    using fresh by (rule map_add_upd_left)
  also have "\<dots> = map_of m ++ map_of (e # es)"
    by (simp add: e)
  finally show ?case .
qed

lemma distinct_replay:
  "distinct (map fst m) \<Longrightarrow>
   distinct (map fst (foldl (\<lambda>m memData. um_assign m (fst memData) (snd memData)) m es))"
  by (induction es arbitrary: m) (simp_all add: um_assign_def distinct_update)

lemma reset_segment_store:
  "unique_keys (m_data mem) \<Longrightarrow>
   map_of (m_data (reset_segment s mem)) = map_of (m_data s) ++ map_of (m_data mem)"
  by (simp add: reset_segment_def replay_entries map_of_replay unique_keys_def)

lemma reset_segment_frame:
  "m_initializationMemories (reset_segment s mem) = m_initializationMemories s"
  "unique_keys (m_data s) \<Longrightarrow> unique_keys (m_data (reset_segment s mem))"
  by (simp_all add: reset_segment_def replay_entries unique_keys_def distinct_replay)

lemma replay_segments:
  "(\<And>mem. mem \<in> set mems \<Longrightarrow> unique_keys (m_data mem)) \<Longrightarrow>
   map_of (m_data (foldl reset_segment s mems))
     = foldl (\<lambda>acc mem. acc ++ map_of (m_data mem)) (map_of (m_data s)) mems"
  by (induction mems arbitrary: s) (simp_all add: reset_segment_store)

lemma replay_segments_frame:
  "m_initializationMemories (foldl reset_segment s mems) = m_initializationMemories s"
  "unique_keys (m_data s) \<Longrightarrow> unique_keys (m_data (foldl reset_segment s mems))"
  by (induction mems arbitrary: s) (simp_all add: reset_segment_frame)

lemma last_write_wins_snoc:
  "last_write_wins (mems @ [mem]) a =
     (if contains mem a then map_of (m_data mem) a else last_write_wins mems a)"
  by (simp add: last_write_wins_def)

lemma union_last_write_wins:
  "foldl (\<lambda>acc mem. acc ++ map_of (m_data mem)) Map.empty mems a = last_write_wins mems a"
proof (induction mems rule: rev_induct)
  case Nil
  then show ?case by (simp add: last_write_wins_def)
next
  case (snoc mem mems)
  then show ?case
    by (auto simp add: last_write_wins_snoc contains_def um_contains_def map_add_def
          split: option.splits)
qed

text \<open>
  C4. \<open>reset\<close> on the base address space clears the byte store and replays the initialization
  memories in the order in which they were added: afterwards the store holds, at every
  address, the byte of the last memory that contains the address, and nothing where no
  memory contains it; the memories themselves are kept. A second \<open>reset\<close> right after the
  first leaves the address space identical. The entries of a memory have distinct
  addresses (as in every address space built by calls, see \<open>history_entries_unique\<close> below),
  so the order in which the hash map hands them out does not matter.
\<close>

theorem reset_replays_segments:
  assumes "\<forall>mem \<in> set (m_initializationMemories s). unique_keys (m_data mem)"
  shows "map_of (m_data (reset s)) a = last_write_wins (m_initializationMemories s) a \<and>
         unique_keys (m_data (reset s)) \<and>
         m_initializationMemories (reset s) = m_initializationMemories s \<and>
         reset (reset s) = reset s"
proof (intro conjI)
  let ?mems = "m_initializationMemories s"
  have "map_of (m_data (reset s))
          = foldl (\<lambda>acc mem. acc ++ map_of (m_data mem)) Map.empty ?mems"
    using assms replay_segments [of ?mems "AddressSpace [] ?mems"] by (simp add: reset_def)
  then show "map_of (m_data (reset s)) a = last_write_wins ?mems a"
    by (simp add: union_last_write_wins)
  have "unique_keys (m_data (AddressSpace [] ?mems))" by (simp add: unique_keys_def)
  then show "unique_keys (m_data (reset s))"
    unfolding reset_def by (rule replay_segments_frame(2))
  show kept: "m_initializationMemories (reset s) = ?mems"
    by (simp add: reset_def replay_segments_frame(1))
  show "reset (reset s) = reset s"
    by (simp add: reset_def replay_segments_frame(1))
qed


theorem reset_replays_segments_witness:
  "map_of (m_data (reset two_segments)) 0 = Some 1 \<and>
   map_of (m_data (reset two_segments)) 4 = Some 0xDD \<and>
   map_of (m_data (reset two_segments)) 0x10 = None \<and>
   readMem (reset two_segments) 0 4 = Inr (1, reset two_segments) \<and>
   readMem (reset two_segments) 4 4 = Inr (0xAABBCCDD, reset two_segments) \<and>
   readMem (reset two_segments) 0xC 4 = Inr (4, reset two_segments) \<and>
   reset (writeMem (reset two_segments) 4 99 4) = reset two_segments \<and>
   reset (reset two_segments) = reset two_segments"
proof -
  have u: "\<forall>mem \<in> set (m_initializationMemories two_segments). unique_keys (m_data mem)"
    by code_simp
  have l: "last_write_wins (m_initializationMemories two_segments) 0 = Some 1"
    "last_write_wins (m_initializationMemories two_segments) 4 = Some 0xDD"
    "last_write_wins (m_initializationMemories two_segments) 0x10 = None"
    by code_simp+
  have r: "readMem (reset two_segments) 0 4 = Inr (1, reset two_segments)"
    "readMem (reset two_segments) 4 4 = Inr (0xAABBCCDD, reset two_segments)"
    "readMem (reset two_segments) 0xC 4 = Inr (4, reset two_segments)"
    by code_simp+
  have w: "reset (writeMem (reset two_segments) 4 99 4) = reset two_segments"
    by code_simp
  from reset_replays_segments [OF u, of 0] reset_replays_segments [OF u, of 4]
    reset_replays_segments [OF u, of "0x10"] l r w
  show ?thesis by simp
qed

section \<open>Reads of addresses that were never written\<close>

lemma um_subscript_value: "fst (um_subscript m k) = byte_at m k"
  by (simp add: um_subscript_def byte_at_def split: option.splits)

lemma um_subscript_byte_at: "byte_at (snd (um_subscript m k)) k' = byte_at m k'"
  by (simp add: um_subscript_def byte_at_def map_add_def split: option.splits)

lemma um_subscript_contains:
  "um_contains (snd (um_subscript m k)) k' \<longleftrightarrow> um_contains m k' \<or> k' = k"
  by (auto simp add: um_subscript_def um_contains_def map_add_def split: option.splits)

lemma le_bytes_cong:
  "(\<And>k. byte_at m' k = byte_at m k) \<Longrightarrow> le_bytes m' a n = le_bytes m a n"
  by (induction n arbitrary: a) simp_all

lemma readMem_loop_store:
  "readMem_loop n i a acc m = Inr (v, m') \<Longrightarrow>
   (\<forall>k. byte_at m' k = byte_at m k) \<and>
   (\<forall>k. um_contains m' k \<longleftrightarrow> um_contains m k \<or> (\<exists>j<n. k = a + of_nat j))"
proof (induction n arbitrary: i a acc m)
  case 0
  then show ?case by simp
next
  case (Suc n)
  let ?m1 = "snd (um_subscript m a)"
  from Suc.prems obtain x where
    rest: "readMem_loop n (Suc i) (a + 1) (acc OR x) ?m1 = Inr (v, m')"
    by (auto simp add: bind_fault_def case_prod_unfold split: sum.splits)
  from Suc.IH [OF rest]
  have b: "\<And>k. byte_at m' k = byte_at ?m1 k"
    and c: "\<And>k. um_contains m' k \<longleftrightarrow> um_contains ?m1 k \<or> (\<exists>j<n. k = a + 1 + of_nat j)"
    by simp_all
  have range: "(k = a \<or> (\<exists>j<n. k = a + 1 + of_nat j)) \<longleftrightarrow> (\<exists>j<Suc n. k = a + of_nat j)" for k
  proof
    assume "k = a \<or> (\<exists>j<n. k = a + 1 + of_nat j)"
    then show "\<exists>j<Suc n. k = a + of_nat j"
    proof
      assume "k = a"
      then have "k = a + of_nat 0" by simp
      then show ?thesis by blast
    next
      assume "\<exists>j<n. k = a + 1 + of_nat j"
      then obtain j where "j < n" "k = a + 1 + of_nat j" by blast
      then have "Suc j < Suc n" "k = a + of_nat (Suc j)" by (simp_all add: ac_simps)
      then show ?thesis by blast
    qed
  next
    assume "\<exists>j<Suc n. k = a + of_nat j"
    then obtain j where j: "j < Suc n" "k = a + of_nat j" by blast
    show "k = a \<or> (\<exists>j<n. k = a + 1 + of_nat j)"
    proof (cases j)
      case 0
      with j show ?thesis by simp
    next
      case (Suc j')
      with j have "j' < n" "k = a + 1 + of_nat j'" by (simp_all add: ac_simps)
      then show ?thesis by blast
    qed
  qed
  show ?case
  proof (intro conjI allI)
    fix k
    show "byte_at m' k = byte_at m k" by (simp add: b um_subscript_byte_at)
    show "um_contains m' k \<longleftrightarrow> um_contains m k \<or> (\<exists>j<Suc n. k = a + of_nat j)"
      using range [of k] by (auto simp add: c um_subscript_contains)
  qed
qed

lemma readMem_loop_value:
  "i + n \<le> 4 \<Longrightarrow>
   \<exists>m'. readMem_loop n i a acc m = Inr (acc OR push_bit (8 * i) (le_bytes m a n), m')"
proof (induction n arbitrary: i a acc m)
  case 0
  then show ?case by simp
next
  case (Suc n)
  from Suc.prems have i: "i < 4" and rest: "Suc i + n \<le> 4" by simp_all
  obtain m1 where sub: "um_subscript m a = (byte_at m a, m1)"
    and m1: "m1 = snd (um_subscript m a)"
    using um_subscript_value [of m a] by (cases "um_subscript m a") simp
  have shift: "shl_byte (byte_at m a) (shift_count i) = Inr (push_bit (8 * i) (ucast (byte_at m a)))"
    using i by (simp add: shl_byte_def shift_count_small)
  have same: "le_bytes m1 (a + 1) n = le_bytes m (a + 1) n"
    unfolding m1 by (rule le_bytes_cong) (rule um_subscript_byte_at)
  let ?acc = "acc OR push_bit (8 * i) (ucast (byte_at m a))"
  from Suc.IH [OF rest, of "a + 1" ?acc m1]
  obtain m' where
    "readMem_loop n (Suc i) (a + 1) ?acc m1
       = Inr (?acc OR push_bit (8 * Suc i) (le_bytes m1 (a + 1) n), m')"
    by blast
  then have step: "readMem_loop n (Suc i) (a + 1) ?acc m1
       = Inr (acc OR push_bit (8 * i) (le_bytes m a (Suc n)), m')"
    by (simp only: same or.assoc le_bytes_shift)
  have "readMem_loop (Suc n) i a acc m = readMem_loop n (Suc i) (a + 1) ?acc m1"
    by (simp add: sub shift bind_fault_def)
  with step have "readMem_loop (Suc n) i a acc m
       = Inr (acc OR push_bit (8 * i) (le_bytes m a (Suc n)), m')"
    by simp
  then show ?case by blast
qed


lemma outside_range:
  "\<not> unat (a - address) < n \<Longrightarrow> j < n \<Longrightarrow> a \<noteq> address + (of_nat j :: 32 word)"
proof
  assume out: "\<not> unat (a - address) < n" and j: "j < n" and eq: "a = address + of_nat j"
  from eq have "a - address = of_nat j" by simp
  then have "unat (a - address) = j mod 2 ^ 32" by (simp add: unat_of_nat)
  also have "\<dots> \<le> j" by simp
  finally show False using out j by simp
qed

lemma um_contains_keys: "um_contains m k \<longleftrightarrow> k \<in> fst ` set m"
  by (simp add: um_contains_def map_of_eq_None_iff)

lemma replay_keys:
  "um_contains (foldl (\<lambda>m memData. um_assign m (fst memData) (snd memData)) m es) k
     \<longleftrightarrow> um_contains m k \<or> um_contains es k"
  by (induction es arbitrary: m) (auto simp add: um_contains_keys um_assign_def dom_update)

lemma reset_segment_contains:
  "contains (reset_segment s mem) a \<longleftrightarrow> contains s a \<or> contains mem a"
  by (simp add: reset_segment_def replay_entries contains_def replay_keys)

lemma replay_segments_contains:
  "contains (foldl reset_segment s mems) a \<longleftrightarrow> contains s a \<or> (\<exists>mem \<in> set mems. contains mem a)"
  by (induction mems arbitrary: s) (auto simp add: reset_segment_contains)

lemma reset_contains:
  "contains (reset s) a \<longleftrightarrow> (\<exists>mem \<in> set (m_initializationMemories s). contains mem a)"
  by (simp add: reset_def replay_segments_contains) (simp add: contains_def um_contains_def)

lemma byte_at_absent: "\<not> um_contains m a \<Longrightarrow> byte_at m a = 0"
  by (simp add: um_contains_def byte_at_def)

lemma writeMem_elsewhere:
  assumes "\<not> unat (a - address) < nat (sint sz)"
  shows "map_of (m_data (writeMem s address val sz)) a = map_of (m_data s) a"
proof -
  have "map_of (writeMem_loop (nat (sint sz)) 0 address val (m_data s)) a = map_of (m_data s) a"
  proof (rule writeMem_loop_other)
    fix j assume "j < nat (sint sz)"
    with assms show "a \<noteq> address + of_nat (0 + j)" by (simp add: outside_range)
  qed
  then show ?thesis by (simp add: writeMem_def)
qed

lemma writeMem_memories:
  "m_initializationMemories (writeMem s address val sz) = m_initializationMemories s"
  by (simp add: writeMem_def)

lemma readMem_effect:
  assumes "readMem s address width = Inr (v, s')"
  shows "m_initializationMemories s' = m_initializationMemories s"
    and "byte_at (m_data s') k = byte_at (m_data s) k"
    and "contains s' k \<longleftrightarrow> contains s k \<or> (\<exists>j<unat width. k = address + of_nat j)"
proof -
  from assms obtain m' where
    loop: "readMem_loop (unat width) 0 address 0 (m_data s) = Inr (v, m')"
    and s': "s' = AddressSpace m' (m_initializationMemories s)"
    by (auto simp add: readMem_def bind_fault_def split: sum.splits)
  from s' show "m_initializationMemories s' = m_initializationMemories s" by simp
  from readMem_loop_store [OF loop] s'
  show "byte_at (m_data s') k = byte_at (m_data s) k"
    and "contains s' k \<longleftrightarrow> contains s k \<or> (\<exists>j<unat width. k = address + of_nat j)"
    by (simp_all add: contains_def)
qed

lemma call_unwritten:
  assumes "unwritten s a" and "\<not> writes_address c a" and "call c s = Inr s'"
  shows "unwritten s' a"
proof (cases c)
  case (WriteMem address val sz)
  with assms(2) have out: "\<not> unat (a - address) < nat (sint sz)" by simp
  from assms(3) WriteMem have s': "s' = writeMem s address val sz" by simp
  from assms(1) show ?thesis
    unfolding unwritten_def s' by (simp add: byte_at_def writeMem_elsewhere [OF out] writeMem_memories)
next
  case (ReadMem address width)
  with assms(3) obtain v where "readMem s address width = Inr (v, s')"
    by (auto simp add: bind_fault_def split: sum.splits)
  from readMem_effect(1,2) [OF this] assms(1) show ?thesis
    by (simp add: unwritten_def)
next
  case (ReadMemConst address width)
  with assms(3) have "s' = s" by (auto simp add: bind_fault_def split: sum.splits)
  with assms(1) show ?thesis by simp
next
  case (AddInitializationMemory startAddr program elem_size)
  with assms show ?thesis
    by (auto simp add: unwritten_def addInitializationMemory_def)
next
  case ClearInitializationMemories
  with assms show ?thesis
    by (auto simp add: unwritten_def clearInitializationMemories_def)
next
  case Reset
  with assms(3) have s': "s' = reset s" by simp
  from assms(1) have none: "\<forall>mem \<in> set (m_initializationMemories s). \<not> contains mem a"
    by (simp add: unwritten_def)
  then have "\<not> contains (reset s) a" by (simp add: reset_contains)
  then have "byte_at (m_data (reset s)) a = 0" by (simp add: contains_def byte_at_absent)
  moreover have "m_initializationMemories (reset s) = m_initializationMemories s"
    by (simp add: reset_def replay_segments_frame(1))
  ultimately show ?thesis using none by (simp add: unwritten_def s')
qed

lemma call_untouched:
  assumes "untouched s a" and "\<not> writes_address c a" and "\<not> reads_address c a"
    and "call c s = Inr s'"
  shows "untouched s' a"
proof (cases c)
  case (WriteMem address val sz)
  with assms(2) have out: "\<not> unat (a - address) < nat (sint sz)" by simp
  from assms(4) WriteMem have s': "s' = writeMem s address val sz" by simp
  from assms(1) show ?thesis
    unfolding untouched_def s'
    by (simp add: contains_def um_contains_def writeMem_elsewhere [OF out] writeMem_memories)
next
  case (ReadMem address width)
  with assms(4) obtain v where rd: "readMem s address width = Inr (v, s')"
    by (auto simp add: bind_fault_def split: sum.splits)
  from assms(3) ReadMem have "\<not> unat (a - address) < unat width" by simp
  then have "\<not> (\<exists>j<unat width. a = address + of_nat j)"
    using outside_range [of a address "unat width"] by blast
  with readMem_effect(1,3) [OF rd] assms(1) show ?thesis
    by (simp add: untouched_def)
next
  case (ReadMemConst address width)
  with assms(4) have "s' = s" by (auto simp add: bind_fault_def split: sum.splits)
  with assms(1) show ?thesis by simp
next
  case (AddInitializationMemory startAddr program elem_size)
  with assms show ?thesis
    by (auto simp add: untouched_def addInitializationMemory_def contains_def)
next
  case ClearInitializationMemories
  with assms show ?thesis
    by (auto simp add: untouched_def clearInitializationMemories_def contains_def)
next
  case Reset
  with assms(4) have s': "s' = reset s" by simp
  from assms(1) have none: "\<forall>mem \<in> set (m_initializationMemories s). \<not> contains mem a"
    by (simp add: untouched_def)
  then have "\<not> contains (reset s) a" by (simp add: reset_contains)
  moreover have "m_initializationMemories (reset s) = m_initializationMemories s"
    by (simp add: reset_def replay_segments_frame(1))
  ultimately show ?thesis using none by (simp add: untouched_def s')
qed

lemma calls_unwritten:
  "unwritten s a \<Longrightarrow> \<forall>c \<in> set cs. \<not> writes_address c a \<Longrightarrow> calls cs s = Inr s' \<Longrightarrow>
   unwritten s' a"
proof (induction cs arbitrary: s)
  case Nil
  then show ?case by simp
next
  case (Cons c cs)
  from Cons.prems(3) obtain s1 where c: "call c s = Inr s1" and cs: "calls cs s1 = Inr s'"
    by (auto simp add: bind_fault_def split: sum.splits)
  from Cons.prems(2) have "\<not> writes_address c a" "\<forall>c \<in> set cs. \<not> writes_address c a"
    by simp_all
  with call_unwritten [OF Cons.prems(1) _ c] Cons.IH [OF _ _ cs] show ?case by blast
qed

lemma calls_untouched:
  "untouched s a \<Longrightarrow> \<forall>c \<in> set cs. \<not> writes_address c a \<and> \<not> reads_address c a \<Longrightarrow>
   calls cs s = Inr s' \<Longrightarrow> untouched s' a"
proof (induction cs arbitrary: s)
  case Nil
  then show ?case by simp
next
  case (Cons c cs)
  from Cons.prems(3) obtain s1 where c: "call c s = Inr s1" and cs: "calls cs s1 = Inr s'"
    by (auto simp add: bind_fault_def split: sum.splits)
  from Cons.prems(2) have "\<not> writes_address c a" "\<not> reads_address c a"
    "\<forall>c \<in> set cs. \<not> writes_address c a \<and> \<not> reads_address c a"
    by simp_all
  with call_untouched [OF Cons.prems(1) _ _ c] Cons.IH [OF _ _ cs] show ?case by blast
qed

lemma empty_unwritten: "unwritten empty_AddressSpace a" "untouched empty_AddressSpace a"
  by (simp_all add: unwritten_def untouched_def empty_AddressSpace_def byte_at_def
        contains_def um_contains_def)


lemma unwritten_bytes_zero:
  assumes "\<And>j. j < n \<Longrightarrow> unwritten s (a + of_nat j)"
  shows "le_bytes (m_data s) a n = 0"
  by (rule le_bytes_absent) (use assms in \<open>simp add: unwritten_def\<close>)

text \<open>
  C8, as amended. Take any history of calls on a fresh base address space that runs to its
  end. A read of at most 4 bytes, none of which any call of the history has stored to (by
  \<open>writeMem\<close>, or by an initialization memory), returns 0, with \<open>readMem\<close> and with
  \<open>readMemConst\<close>, also through an \<open>AddressSpaceMM\<close> that has this store and finds no region
  at the address. \<open>contains\<close> is false at an address that no call has stored to and no
  \<open>readMem\<close> has read: \<open>readMem\<close> itself enters a zero byte for every missing address it
  reads. Every read of at most 4 bytes returns a value, and \<open>writeMem\<close> returns for every
  argument.
\<close>

theorem unwritten_reads_zero:
  assumes "calls cs empty_AddressSpace = Inr s"
  shows "(w \<le> 4 \<and> (\<forall>c \<in> set cs. \<forall>j<unat w. \<not> writes_address c (a + of_nat j)) \<longrightarrow>
            (\<exists>s'. readMem s a w = Inr (0, s')) \<and> readMemConst s a w = Inr 0 \<and>
            (\<forall>S world. sparse S = s \<and> findMMapRegion S a = None \<longrightarrow>
               (\<exists>S'. readMemMM S a w world = Inr (0, S', world)) \<and>
               readMemConstMM S a w world = Inr (0, world))) \<and>
         ((\<forall>c \<in> set cs. \<not> writes_address c a \<and> \<not> reads_address c a) \<longrightarrow> \<not> contains s a) \<and>
         (w \<le> 4 \<longrightarrow> (\<exists>v s'. readMem s a w = Inr (v, s')) \<and> (\<exists>v. readMemConst s a w = Inr v)) \<and>
         (\<exists>s'. call (WriteMem a v sz) s = Inr s')"
proof (intro conjI impI)
  assume h: "w \<le> 4 \<and> (\<forall>c \<in> set cs. \<forall>j<unat w. \<not> writes_address c (a + of_nat j))"
  then have w: "unat w \<le> 4" by (simp add: small_unsigned)
  have "unwritten s (a + of_nat j)" if "j < unat w" for j
    using calls_unwritten [OF empty_unwritten(1) _ assms] h that by blast
  then have zero: "le_bytes (m_data s) a (unat w) = 0" by (rule unwritten_bytes_zero)
  from readMem_loop_value [of 0 "unat w" a 0 "m_data s"] w zero
  obtain m' where "readMem_loop (unat w) 0 a 0 (m_data s) = Inr (0, m')" by auto
  then have rd: "readMem s a w = Inr (0, AddressSpace m' (m_initializationMemories s))"
    by (simp add: readMem_def bind_fault_def)
  then show "\<exists>s'. readMem s a w = Inr (0, s')" by blast
  from readMemConst_loop_value [of 0 "unat w" a 0 "m_data s"] w zero
  show rc: "readMemConst s a w = Inr 0" by (simp add: readMemConst_def)
  show "\<forall>S world. sparse S = s \<and> findMMapRegion S a = None \<longrightarrow>
          (\<exists>S'. readMemMM S a w world = Inr (0, S', world)) \<and>
          readMemConstMM S a w world = Inr (0, world)"
    using rd rc by (auto simp add: readMemMM_def readMemConstMM_def bind_fault_def)
next
  assume "\<forall>c \<in> set cs. \<not> writes_address c a \<and> \<not> reads_address c a"
  from calls_untouched [OF empty_unwritten(2) this assms] show "\<not> contains s a"
    by (simp add: untouched_def)
next
  assume "w \<le> 4"
  then have w: "unat w \<le> 4" by (rule small_unsigned)
  from readMem_loop_value [of 0 "unat w" a 0 "m_data s"] w
  obtain m' where "readMem_loop (unat w) 0 a 0 (m_data s)
                     = Inr (0 OR push_bit (8 * 0) (le_bytes (m_data s) a (unat w)), m')"
    by auto
  then show "\<exists>v s'. readMem s a w = Inr (v, s')"
    by (simp add: readMem_def bind_fault_def)
  from readMemConst_loop_value [of 0 "unat w" a 0 "m_data s"] w
  show "\<exists>v. readMemConst s a w = Inr v" by (simp add: readMemConst_def)
next
  show "\<exists>s'. call (WriteMem a v sz) s = Inr s'" by simp
qed

theorem unwritten_reads_zero_witness:
  "calls [WriteMem 0x10 0xAB 1, ReadMem 0x20 1] empty_AddressSpace
     = Inr (AddressSpace [(0x10, 0xAB), (0x20, 0)] []) \<and>
   (4 :: 32 word) \<le> 4 \<and>
   \<not> writes_address (WriteMem 0x10 0xAB 1) 0x20 \<and>
   \<not> writes_address (WriteMem 0x10 0xAB 1) 0x30 \<and>
   \<not> reads_address (ReadMem 0x20 1) 0x30 \<and>
   readMemConst (AddressSpace [(0x10, 0xAB), (0x20, 0)] []) 0x20 4 = Inr 0 \<and>
   (\<exists>s'. readMem (AddressSpace [(0x10, 0xAB), (0x20, 0)] []) 0x20 4 = Inr (0, s')) \<and>
   \<not> contains (AddressSpace [(0x10, 0xAB), (0x20, 0)] []) 0x30"
proof -
  let ?cs = "[WriteMem 0x10 0xAB 1, ReadMem 0x20 1]"
  let ?s = "AddressSpace [(0x10, 0xAB), (0x20, 0)] []"
  have run: "calls ?cs empty_AddressSpace = Inr ?s" by code_simp
  have w: "(4 :: 32 word) \<le> 4" by simp
  have nw: "\<forall>c \<in> set ?cs. \<forall>j<unat (4 :: 32 word). \<not> writes_address c (0x20 + of_nat j)"
  proof (intro ballI allI impI)
    fix c j assume "c \<in> set ?cs" "j < unat (4 :: 32 word)"
    then have "c = WriteMem 0x10 0xAB 1 \<or> c = ReadMem 0x20 1" "j \<in> {0, 1, 2, 3}"
      by auto
    then show "\<not> writes_address c (0x20 + of_nat j)" by auto
  qed
  have facts: "\<not> writes_address (WriteMem 0x10 0xAB 1) 0x20"
    "\<not> writes_address (WriteMem 0x10 0xAB 1) 0x30"
    "\<not> reads_address (ReadMem 0x20 1) 0x30"
    by simp_all
  then have nt: "\<forall>c \<in> set ?cs. \<not> writes_address c 0x30 \<and> \<not> reads_address c 0x30"
    by simp
  from unwritten_reads_zero [OF run, where w = 4 and a = "0x20"] w nw
  have r: "readMemConst ?s 0x20 4 = Inr 0" "\<exists>s'. readMem ?s 0x20 4 = Inr (0, s')"
    by blast+
  from unwritten_reads_zero [OF run, where a = "0x30"] nt
  have c: "\<not> contains ?s 0x30" by blast
  from run w facts r c show ?thesis by blast
qed

theorem unwritten_contains_counterexample:
  "calls [ReadMem 0 1] empty_AddressSpace = Inr (AddressSpace [(0, 0)] []) \<and>
   \<not> writes_address (ReadMem 0 1) 0 \<and>
   contains (AddressSpace [(0, 0)] []) 0 \<and>
   readMem empty_AddressSpace 0 5 = Inl UndefinedShift"
  by code_simp


section \<open>One entry per key\<close>

lemma writeMem_loop_unique: "unique_keys m \<Longrightarrow> unique_keys (writeMem_loop n i a v m)"
  by (induction n arbitrary: i v m) (simp_all add: unique_keys_def um_assign_def distinct_update)

lemma um_subscript_unique: "unique_keys m \<Longrightarrow> unique_keys (snd (um_subscript m k))"
  by (auto simp add: unique_keys_def um_subscript_def map_of_eq_None_iff split: option.splits)

lemma readMem_loop_unique:
  "unique_keys m \<Longrightarrow> readMem_loop n i a acc m = Inr (v, m') \<Longrightarrow> unique_keys m'"
proof (induction n arbitrary: i a acc m)
  case 0
  then show ?case by simp
next
  case (Suc n)
  from Suc.prems(2) obtain x where
    rest: "readMem_loop n (Suc i) (a + 1) (acc OR x) (snd (um_subscript m a)) = Inr (v, m')"
    by (auto simp add: bind_fault_def case_prod_unfold split: sum.splits)
  from Suc.IH [OF um_subscript_unique [OF Suc.prems(1)] rest] show ?case .
qed

lemma writeMem_unique: "unique_keys (m_data s) \<Longrightarrow> unique_keys (m_data (writeMem s a v sz))"
  by (simp add: writeMem_def writeMem_loop_unique)

lemma addInit_loop_unique:
  "unique_keys (m_data mem) \<Longrightarrow> unique_keys (m_data (addInit_loop ps sz a mem))"
  by (induction ps arbitrary: a mem) (simp_all add: writeMem_unique)

lemma call_entries_unique:
  assumes "entries_unique s" and "call c s = Inr s'"
  shows "entries_unique s'"
proof (cases c)
  case (WriteMem address val sz)
  with assms show ?thesis
    by (auto simp add: entries_unique_def writeMem_unique writeMem_memories)
next
  case (ReadMem address width)
  with assms(2) obtain v m' where
    "readMem_loop (unat width) 0 address 0 (m_data s) = Inr (v, m')"
    "s' = AddressSpace m' (m_initializationMemories s)"
    by (auto simp add: readMem_def bind_fault_def split: sum.splits)
  with assms(1) readMem_loop_unique show ?thesis
    by (auto simp add: entries_unique_def)
next
  case (ReadMemConst address width)
  with assms show ?thesis by (auto simp add: bind_fault_def split: sum.splits)
next
  case (AddInitializationMemory startAddr program elem_size)
  have "unique_keys (m_data (addInit_loop program elem_size startAddr empty_AddressSpace))"
    by (rule addInit_loop_unique) (simp add: empty_AddressSpace_def unique_keys_def)
  with assms AddInitializationMemory show ?thesis
    by (auto simp add: entries_unique_def addInitializationMemory_def)
next
  case ClearInitializationMemories
  with assms show ?thesis
    by (auto simp add: entries_unique_def clearInitializationMemories_def)
next
  case Reset
  have "unique_keys (m_data (AddressSpace [] (m_initializationMemories s)))"
    by (simp add: unique_keys_def)
  then have "unique_keys (m_data (reset s))"
    unfolding reset_def by (rule replay_segments_frame(2))
  moreover have "m_initializationMemories (reset s) = m_initializationMemories s"
    by (simp add: reset_def replay_segments_frame(1))
  ultimately show ?thesis using assms Reset by (auto simp add: entries_unique_def)
qed

lemma calls_entries_unique:
  "entries_unique s \<Longrightarrow> calls cs s = Inr s' \<Longrightarrow> entries_unique s'"
proof (induction cs arbitrary: s)
  case Nil
  then show ?case by simp
next
  case (Cons c cs)
  from Cons.prems(2) obtain s1 where c: "call c s = Inr s1" and cs: "calls cs s1 = Inr s'"
    by (auto simp add: bind_fault_def split: sum.splits)
  from Cons.IH [OF call_entries_unique [OF Cons.prems(1) c] cs] show ?case .
qed

lemma history_entries_unique: "calls cs empty_AddressSpace = Inr s \<Longrightarrow> entries_unique s"
  by (rule calls_entries_unique [of empty_AddressSpace])
     (simp_all add: entries_unique_def empty_AddressSpace_def unique_keys_def)

end
